theory Spec2Isabelle
  imports Main
begin

section \<open>Strings, streams and the size type\<close>

text \<open>
  \<^verbatim>\<open>std::string\<close> is a \<open>string\<close> (a list of bytes). Positions are \<^verbatim>\<open>size_t\<close>,
  taken as 64-bit: a natural number below \<open>2 ^ 64\<close>, with the wrap-around of
  \<^verbatim>\<open>pos + 1\<close> written out as \<open>mod 2 ^ 64\<close>.
\<close>

definition npos :: nat where
  \<comment> \<open>\<^verbatim>\<open>std::string::npos\<close>, the largest \<^verbatim>\<open>size_t\<close>\<close>
  "npos = 2 ^ 64 - 1"

definition size_t_add :: "nat \<Rightarrow> nat \<Rightarrow> nat" where
  \<comment> \<open>unsigned addition on \<^verbatim>\<open>size_t\<close>\<close>
  "size_t_add a b = (a + b) mod 2 ^ 64"

definition find_space :: "string \<Rightarrow> nat" where
  \<comment> \<open>\<^verbatim>\<open>s.find(" ")\<close>: the index of the first space, \<^verbatim>\<open>npos\<close> when there is none\<close>
  "find_space s =
     (if CHR '' '' \<in> set s then length (takeWhile (\<lambda>c. c \<noteq> CHR '' '') s) else npos)"

definition substr :: "string \<Rightarrow> nat \<Rightarrow> nat \<Rightarrow> string" where
  \<comment> \<open>\<^verbatim>\<open>s.substr(from, n)\<close> for \<open>from \<le> size\<close>: at most \<open>n\<close> characters\<close>
  "substr s from n = take n (drop from s)"

definition erase :: "string \<Rightarrow> nat \<Rightarrow> nat \<Rightarrow> string" where
  \<comment> \<open>\<^verbatim>\<open>s.erase(from, n)\<close> for \<open>from \<le> size\<close>: removes at most \<open>n\<close> characters\<close>
  "erase s from n = take from s @ drop n (drop from s)"

definition upper_table :: "(char \<times> char) list" where
  "upper_table = zip ''abcdefghijklmnopqrstuvwxyz'' ''ABCDEFGHIJKLMNOPQRSTUVWXYZ''"

definition toupper :: "char \<Rightarrow> char" where
  \<comment> \<open>\<^verbatim>\<open>std::toupper\<close> in the classic locale, which \<^verbatim>\<open>boost::iequals\<close> applies to both sides\<close>
  "toupper c = (case map_of upper_table c of Some u \<Rightarrow> u | None \<Rightarrow> c)"

fun iequals :: "string \<Rightarrow> string \<Rightarrow> bool" where
  \<comment> \<open>\<^verbatim>\<open>boost::iequals\<close>: both ranges in step, equal up to \<^verbatim>\<open>toupper\<close>, ending together\<close>
  "iequals [] [] = True"
| "iequals (x # xs) (y # ys) = (toupper x = toupper y \<and> iequals xs ys)"
| "iequals _ _ = False"

definition newline :: char where
  "newline = CHR 0x0A"

section \<open>The configuration parser\<close>

definition parseTokenFromString :: "string \<Rightarrow> (string \<times> string \<times> nat) option" where
  \<comment> \<open>\<open>None\<close> is \<^verbatim>\<open>return false\<close>; \<open>Some (token, s', pos)\<close> the three references after \<^verbatim>\<open>return true\<close>\<close>
  "parseTokenFromString s =
     (if s = [] then None
      else let pos = find_space s;
               token = substr s 0 pos;
               s' = erase s 0 (size_t_add pos 1)
           in Some (token, s', pos))"

datatype config_error =
    CannotOpen
  | StereoImproper
  | MonoImproper
  | DuplicateIMU
  | IMUImproper
  | UnknownSensor string
  | MissingStereoOrIMU

record parse_state =
  hasStereo :: bool
  hasIMU :: bool
  cameraNs :: "string list list"
  imuTopicName :: string

definition init_parse_state :: parse_state where
  "init_parse_state = \<lparr>hasStereo = False, hasIMU = False, cameraNs = [], imuTopicName = []\<rparr>"

definition parse_line :: "string \<Rightarrow> parse_state \<Rightarrow> config_error + parse_state" where
  \<comment> \<open>the body of the \<^verbatim>\<open>while\<close> loop for the line \<open>s\<close>; \<open>Inl\<close> is an early \<^verbatim>\<open>return false\<close>\<close>
  "parse_line s st =
     (if s = [] then Inr st
      else case parseTokenFromString s of
        None \<Rightarrow> Inr st
      | Some (token, s1, _) \<Rightarrow>
          if iequals token ''stereo'' then
            (case parseTokenFromString s1 of
               None \<Rightarrow> Inl StereoImproper
             | Some (leftTopicName, s2, _) \<Rightarrow>
                 (case parseTokenFromString s2 of
                    None \<Rightarrow> Inl StereoImproper
                  | Some (rightTopicName, _, _) \<Rightarrow>
                      Inr (st\<lparr>cameraNs := cameraNs st @ [[leftTopicName, rightTopicName]],
                               hasStereo := True\<rparr>)))
          else if iequals token ''mono'' then
            (case parseTokenFromString s1 of
               None \<Rightarrow> Inl MonoImproper
             | Some (topicName, _, _) \<Rightarrow>
                 Inr (st\<lparr>cameraNs := cameraNs st @ [[topicName]]\<rparr>))
          else if iequals token ''imu'' then
            (if hasIMU st then Inl DuplicateIMU
             else case parseTokenFromString s1 of
               None \<Rightarrow> Inl IMUImproper
             | Some (topic, _, _) \<Rightarrow> Inr (st\<lparr>imuTopicName := topic, hasIMU := True\<rparr>))
          else Inl (UnknownSensor token))"

definition getline :: "string \<Rightarrow> string \<times> string \<times> bool" where
  \<comment> \<open>\<^verbatim>\<open>std::getline\<close> on the unread part of the stream: the line, what is left unread,
      and \<^verbatim>\<open>ifs.good()\<close> afterwards (false once the end of the file was hit)\<close>
  "getline unread =
     (let s = takeWhile (\<lambda>c. c \<noteq> newline) unread;
          rest = dropWhile (\<lambda>c. c \<noteq> newline) unread
      in if rest = [] then (s, [], False) else (s, tl rest, True))"

function read_loop :: "string \<Rightarrow> parse_state \<Rightarrow> config_error + parse_state" where
  "read_loop unread st =
     (case getline unread of (s, rest, good) \<Rightarrow>
        (case parse_line s st of
           Inl e \<Rightarrow> Inl e
         | Inr st' \<Rightarrow> if good then read_loop rest st' else Inr st'))"
  by pat_completeness auto
termination
proof (relation "measure (\<lambda>(unread, st). length unread)", goal_cases)
  case 1
  show ?case by simp
next
  case (2 unread st s y rest good st')
  let ?d = "dropWhile (\<lambda>c. c \<noteq> newline) unread"
  have "getline unread = (s, y)" and "y = (rest, good)" and "good = True"
    using 2 by simp_all
  then have "getline unread = (s, rest, True)"
    by simp
  then have "?d \<noteq> []" and "rest = tl ?d"
    by (auto simp: getline_def Let_def split: if_splits)
  then have "length rest < length ?d"
    by (cases ?d) auto
  also have "\<dots> \<le> length unread"
    by (rule length_dropWhile_le)
  finally show ?case
    by simp
qed

declare read_loop.simps [simp del]

definition parseConfigFile :: "string option \<Rightarrow> config_error + (string list list \<times> string)" where
  \<comment> \<open>the argument is the content of the file named \<^verbatim>\<open>configFilename\<close>, \<open>None\<close> when it
      cannot be opened; \<open>Inr (cameraNs, imuTopicName)\<close> is \<^verbatim>\<open>return true\<close>\<close>
  "parseConfigFile file =
     (case file of
        None \<Rightarrow> Inl CannotOpen
      | Some content \<Rightarrow>
          (case read_loop content init_parse_state of
             Inl e \<Rightarrow> Inl e
           | Inr st \<Rightarrow>
               if \<not> hasStereo st \<or> \<not> hasIMU st then Inl MissingStereoOrIMU
               else Inr (cameraNs st, imuTopicName st)))"


text \<open>
  The lines the loop reads, as a list: the stream is cut at every newline, and the last
  read ends at the end of the file (an empty read when the file ends with a newline).
  \<open>parse_lines\<close> is the loop over that list.
\<close>

fun getlines :: "string \<Rightarrow> string list" where
  "getlines [] = [[]]"
| "getlines (c # cs) =
     (if c = newline then [] # getlines cs
      else (case getlines cs of [] \<Rightarrow> [[c]] | l # ls \<Rightarrow> (c # l) # ls))"

fun parse_lines :: "string list \<Rightarrow> parse_state \<Rightarrow> config_error + parse_state" where
  "parse_lines [] st = Inr st"
| "parse_lines (l # ls) st =
     (case parse_line l st of Inl e \<Rightarrow> Inl e | Inr st' \<Rightarrow> parse_lines ls st')"

definition accepted :: "config_error + (string list list \<times> string) \<Rightarrow> bool" where
  \<comment> \<open>\<^verbatim>\<open>parseConfigFile\<close> returned true\<close>
  "accepted r = (case r of Inl _ \<Rightarrow> False | Inr _ \<Rightarrow> True)"

subsection \<open>Vocabulary for statements about configuration files\<close>

definition first_word :: "string \<Rightarrow> string" where
  \<comment> \<open>the first token of a line: everything before its first space\<close>
  "first_word l = takeWhile (\<lambda>c. c \<noteq> CHR '' '') l"

definition is_stereo_line :: "string \<Rightarrow> bool" where
  "is_stereo_line l = (l \<noteq> [] \<and> iequals (first_word l) ''stereo'')"

definition is_mono_line :: "string \<Rightarrow> bool" where
  "is_mono_line l = (l \<noteq> [] \<and> iequals (first_word l) ''mono'')"

definition is_imu_line :: "string \<Rightarrow> bool" where
  "is_imu_line l = (l \<noteq> [] \<and> iequals (first_word l) ''imu'')"

definition is_unknown_line :: "string \<Rightarrow> bool" where
  \<comment> \<open>a line that is not empty and whose first token is none of the three sensor types\<close>
  "is_unknown_line l =
     (l \<noteq> [] \<and> \<not> iequals (first_word l) ''stereo'' \<and> \<not> iequals (first_word l) ''mono''
        \<and> \<not> iequals (first_word l) ''imu'')"

definition count_lines :: "(string \<Rightarrow> bool) \<Rightarrow> string \<Rightarrow> nat" where
  "count_lines P content = length (filter P (getlines content))"

definition fits_size_t :: "string \<Rightarrow> bool" where
  \<comment> \<open>every position of the string is a \<^verbatim>\<open>size_t\<close> below \<^verbatim>\<open>npos\<close>, as for any \<^verbatim>\<open>std::string\<close>\<close>
  "fits_size_t content = (length content < npos)"

fun split_spaces :: "string \<Rightarrow> string list" where
  \<comment> \<open>the fields of a line, cut at every single space\<close>
  "split_spaces [] = [[]]"
| "split_spaces (c # cs) =
     (if c = CHR '' '' then [] # split_spaces cs
      else (case split_spaces cs of [] \<Rightarrow> [[c]] | w # ws \<Rightarrow> (c # w) # ws))"

datatype sensor = Stereo string string | Mono string | Imu string

fun declared_sensor :: "string list \<Rightarrow> sensor option" where
  "declared_sensor [kw, a, b] =
     (if iequals kw ''stereo'' \<and> a \<noteq> [] \<and> b \<noteq> [] then Some (Stereo a b) else None)"
| "declared_sensor [kw, a] =
     (if iequals kw ''mono'' \<and> a \<noteq> [] then Some (Mono a)
      else if iequals kw ''imu'' \<and> a \<noteq> [] then Some (Imu a)
      else None)"
| "declared_sensor _ = None"

definition spec_declaration :: "string \<Rightarrow> sensor option" where
  \<comment> \<open>the specification's recognized forms \<^verbatim>\<open>stereo <topicA> <topicB>\<close>, \<^verbatim>\<open>mono <topic>\<close>
      and \<^verbatim>\<open>imu <topic>\<close>: the sensor a line declares, \<open>None\<close> when it has none of the forms\<close>
  "spec_declaration l = declared_sensor (split_spaces l)"

definition is_declaration :: "string \<Rightarrow> bool" where
  "is_declaration l = (spec_declaration l \<noteq> None)"

definition well_formed :: "string \<Rightarrow> bool" where
  \<comment> \<open>every line that is not empty has one of the recognized forms\<close>
  "well_formed content = list_all (\<lambda>l. l = [] \<or> is_declaration l) (getlines content)"

definition line_cameras :: "string \<Rightarrow> string list list" where
  \<comment> \<open>what one line, parsed on its own, appends to \<^verbatim>\<open>cameraNs\<close>\<close>
  "line_cameras l =
     (case parse_line l init_parse_state of Inl _ \<Rightarrow> [] | Inr st \<Rightarrow> cameraNs st)"

definition case_variant :: "string \<Rightarrow> string \<Rightarrow> bool" where
  \<comment> \<open>\<open>kw\<close> is the lowercase word \<open>k\<close> with any of its letters replaced by its capital\<close>
  "case_variant kw k = list_all2 (\<lambda>a b. a = b \<or> (b, a) \<in> set upper_table) kw k"

section \<open>The visual-odometry callback\<close>

type_synonym ros_time = nat
  \<comment> \<open>\<^verbatim>\<open>ros::Time\<close>, compared with \<^verbatim>\<open>==\<close>; here the time in nanoseconds\<close>

record imu_msg =
  imu_stamp :: ros_time
  imu_reading :: nat

record image_msg =
  image_stamp :: ros_time
  image_data :: nat

datatype 'mat vo_effect =
    Warn string
  | Error string
  | ProcessFrames ros_time "'mat list" imu_msg

fun find_stamp :: "imu_msg list \<Rightarrow> ros_time \<Rightarrow> imu_msg option" where
  \<comment> \<open>the search loop, over the buffer in the order the iterator visits it\<close>
  "find_stamp [] stamp = None"
| "find_stamp (m # ms) stamp = (if imu_stamp m = stamp then Some m else find_stamp ms stamp)"

fun convert_images :: "(image_msg \<Rightarrow> string + 'mat) \<Rightarrow> image_msg list \<Rightarrow> string + 'mat list" where
  \<comment> \<open>the conversion loop inside \<^verbatim>\<open>try\<close>; \<open>Inl\<close> is the \<^verbatim>\<open>cv_bridge::Exception\<close> caught\<close>
  "convert_images toCvShare [] = Inr []"
| "convert_images toCvShare (m # ms) =
     (case toCvShare m of
        Inl e \<Rightarrow> Inl e
      | Inr img \<Rightarrow>
          (case convert_images toCvShare ms of
             Inl e \<Rightarrow> Inl e
           | Inr images \<Rightarrow> Inr (img # images)))"

definition voCallback ::
  "(image_msg \<Rightarrow> string + 'mat) \<Rightarrow> image_msg \<Rightarrow> image_msg \<Rightarrow> image_msg \<Rightarrow> image_msg \<Rightarrow>
     imu_msg list \<Rightarrow> 'mat vo_effect list" where
  \<comment> \<open>\<open>toCvShare\<close> is \<^verbatim>\<open>cv_bridge::toCvShare\<close> followed by the copy, \<open>Inl\<close> when it throws
      \<^verbatim>\<open>cv_bridge::Exception\<close>. The buffer is a \<^verbatim>\<open>const\<close> reference and everything else is
      local, so the result is what the callback does: the log lines and the call of
      \<^verbatim>\<open>sc->processFrames\<close>.\<close>
  "voCallback toCvShare imageMsg0 imageMsg1 imageMsg2 imageMsg3 imuBuffer =
     (let stamp = image_stamp imageMsg0 in
      case find_stamp (rev imuBuffer) stamp of
        None \<Rightarrow> [Warn ''No IMU message with matching timestamp.'']
      | Some imuMsg \<Rightarrow>
          (case convert_images toCvShare [imageMsg0, imageMsg1, imageMsg2, imageMsg3] of
             Inl e \<Rightarrow> [Error (''cv_bridge exception: '' @ e)]
           | Inr images \<Rightarrow> [ProcessFrames stamp images imuMsg]))"

fun is_ProcessFrames :: "'mat vo_effect \<Rightarrow> bool" where
  "is_ProcessFrames (ProcessFrames stamp images imuMsg) = True"
| "is_ProcessFrames _ = False"

definition matching_sample :: "imu_msg list \<Rightarrow> ros_time \<Rightarrow> bool" where
  \<comment> \<open>the buffer holds a sample with this timestamp\<close>
  "matching_sample buf stamp = list_ex (\<lambda>s. imu_stamp s = stamp) buf"

definition converts :: "(image_msg \<Rightarrow> string + 'mat) \<Rightarrow> image_msg \<Rightarrow> bool" where
  "converts toCvShare m = (case toCvShare m of Inl _ \<Rightarrow> False | Inr _ \<Rightarrow> True)"

section \<open>The node's main function\<close>

definition N_CAMERAS :: nat where
  "N_CAMERAS = 4"

datatype payload =
    CameraInfoData nat
  | ImageData image_msg
  | ImuData imu_msg

record bag_message =
  msg_topic :: string
  msg_payload :: payload

definition instantiate_camera_info :: "bag_message \<Rightarrow> nat option" where
  \<comment> \<open>\<^verbatim>\<open>m.instantiate<px_comm::CameraInfo>()\<close>, null for a message of another type\<close>
  "instantiate_camera_info m = (case msg_payload m of CameraInfoData c \<Rightarrow> Some c | _ \<Rightarrow> None)"

definition instantiate_image :: "bag_message \<Rightarrow> image_msg option" where
  "instantiate_image m = (case msg_payload m of ImageData i \<Rightarrow> Some i | _ \<Rightarrow> None)"

definition instantiate_imu :: "bag_message \<Rightarrow> imu_msg option" where
  "instantiate_imu m = (case msg_payload m of ImuData i \<Rightarrow> Some i | _ \<Rightarrow> None)"

text \<open>
  What the process does besides returning: the files it writes and the messages it hands
  on. \<open>NewMessage i img\<close> is \<^verbatim>\<open>imageSubs.at(i)->newMessage(img)\<close>, which passes the image
  to the synchronizer; the synchronizer calls \<^verbatim>\<open>voCallback\<close> once four images share a
  timestamp, and that call reads \<^verbatim>\<open>imuBuffer\<close> through a \<^verbatim>\<open>const\<close> reference and changes
  nothing of \<^verbatim>\<open>main\<close>. The outcome of a run is its exit code, or the uncaught
  \<^verbatim>\<open>std::out_of_range\<close> of a \<^verbatim>\<open>vector::at\<close>, or the use of a null \<^verbatim>\<open>shared_ptr\<close>.
  A camera is the number of the camera information it was generated from, \<open>None\<close> while
  the pointer is null. The poses kept by the camera system are left out.
\<close>

datatype effect =
    LogError string
  | NewMessage nat image_msg
  | Publish nat "image_msg option"
  | RegisterCallback
  | ScRun
  | WriteCalibration
  | SetCameraInfo string
  | WritePoses

datatype outcome = Exit int | OutOfRange | NullDeref

record env =
  helpRequested :: bool
  configFile :: "string option"
  bagMessages :: "bag_message list option"
  readIntermediateData :: bool
  extrinsicsReadable :: bool
  scInitOk :: bool
  rosOk :: "nat \<Rightarrow> bool"

text \<open>
  The environment of a run: whether \<^verbatim>\<open>--help\<close> was given, the content of the
  configuration file (\<open>None\<close> when it cannot be opened), the messages of the bag
  (\<open>None\<close> when opening it throws \<^verbatim>\<open>BagIOException\<close>), the \<^verbatim>\<open>--intermediate\<close> switch,
  the results of \<^verbatim>\<open>readFromTextFile\<close> and of \<^verbatim>\<open>sc->init\<close>, and the result of the
  \<open>k\<close>-th call of \<^verbatim>\<open>ros::ok()\<close>.
\<close>

record replay_state =
  init :: "bool list"
  cameras :: "nat option list"
  sc :: bool
  imuBuffer :: "imu_msg list"
  effects :: "effect list"
  okCalls :: nat

datatype flow = Next replay_state | Break replay_state | Abort outcome replay_state

fun flow_state :: "flow \<Rightarrow> replay_state" where
  "flow_state (Next st) = st"
| "flow_state (Break st) = st"
| "flow_state (Abort out st) = st"

definition count_cameras :: "string list list \<Rightarrow> nat" where
  \<comment> \<open>the loop that sums \<^verbatim>\<open>cameraNs.at(i).size()\<close> into \<^verbatim>\<open>nCams\<close>\<close>
  "count_cameras ns = foldl (\<lambda>nCams n. nCams + length n) 0 ns"

definition camInfoTopicNames :: "string list list \<Rightarrow> string list" where
  "camInfoTopicNames ns = concat (map (map (\<lambda>n. n @ ''/camera_info'')) ns)"

definition camImageTopicNames :: "string list list \<Rightarrow> string list" where
  "camImageTopicNames ns = concat (map (map (\<lambda>n. n @ ''/image_raw'')) ns)"

definition sync_subscribers :: "nat \<Rightarrow> bool" where
  \<comment> \<open>the constructor of the 4-way \<^verbatim>\<open>TimeSynchronizer\<close> reads \<^verbatim>\<open>imageSubs.at(0)\<close> to
      \<^verbatim>\<open>imageSubs.at(3)\<close> of a vector of \<open>nCams\<close> elements; false when one of them throws\<close>
  "sync_subscribers nCams = list_all (\<lambda>i. i < nCams) [0, 1, 2, 3]"

function trim_buffer :: "imu_msg list \<Rightarrow> imu_msg list" where
  \<comment> \<open>\<^verbatim>\<open>while (imuBuffer.size() > 50) imuBuffer.pop_front();\<close>\<close>
  "trim_buffer buf = (if length buf > 50 then trim_buffer (tl buf) else buf)"
  by pat_completeness auto
termination
  by (relation "measure length") (auto simp: less_Suc_eq_le)

declare trim_buffer.simps [simp del]

fun scan_camera_info ::
  "nat list \<Rightarrow> bag_message \<Rightarrow> string list \<Rightarrow> replay_state \<Rightarrow> flow" where
  \<comment> \<open>the \<^verbatim>\<open>for\<close> loop over \<open>i\<close> that looks the topic up in \<^verbatim>\<open>camInfoTopicNames\<close>\<close>
  "scan_camera_info [] m names st = Next st"
| "scan_camera_info (i # rest) m names st =
     (if \<not> i < length names then Abort OutOfRange st
      else if msg_topic m = names ! i then
        (if init st ! i then Next st
         else case instantiate_camera_info m of
           None \<Rightarrow> Next st
         | Some cameraInfo \<Rightarrow>
             if \<not> i < length (cameras st) then Abort OutOfRange st
             else Next (st\<lparr>cameras := (cameras st)[i := Some cameraInfo],
                           init := (init st)[i := True]\<rparr>))
      else scan_camera_info rest m names st)"

fun assemble_rig :: "string list list \<Rightarrow> nat \<Rightarrow> nat option list \<Rightarrow> outcome option" where
  \<comment> \<open>the loop over \<^verbatim>\<open>cameraNs\<close> with \<^verbatim>\<open>mark\<close>, once all four bits are set: \<open>None\<close> when it
      completes, else the failure of \<^verbatim>\<open>cameras.at(mark)->cameraType()\<close>\<close>
  "assemble_rig [] mark cams = None"
| "assemble_rig (ns # rest) mark cams =
     (if length ns = 2 then
        (if \<not> mark < length cams then Some OutOfRange
         else if cams ! mark = None then Some NullDeref
         else if \<not> mark + 1 < length cams then Some OutOfRange
         else if cams ! (mark + 1) = None then Some NullDeref
         else assemble_rig rest (mark + length ns) cams)
      else
        (if \<not> mark < length cams then Some OutOfRange
         else if cams ! mark = None then Some NullDeref
         else assemble_rig rest (mark + length ns) cams))"

fun scan_images :: "nat list \<Rightarrow> bag_message \<Rightarrow> string list \<Rightarrow> nat \<Rightarrow> replay_state \<Rightarrow> flow" where
  \<comment> \<open>the \<^verbatim>\<open>for\<close> loop over \<open>i\<close> that looks the topic up in \<^verbatim>\<open>camImageTopicNames\<close>; it has
      no \<^verbatim>\<open>break\<close>. \<^verbatim>\<open>imageSubs\<close> has \<open>nCams\<close> elements, \<^verbatim>\<open>imagePubs\<close> as many as there are names.\<close>
  "scan_images [] m names nCams st = Next st"
| "scan_images (i # rest) m names nCams st =
     (if \<not> i < length names then Abort OutOfRange st
      else if msg_topic m = names ! i then
        (case instantiate_image m of
           Some img \<Rightarrow>
             if \<not> i < nCams then Abort OutOfRange st
             else scan_images rest m names nCams
                    (st\<lparr>effects := effects st @ [NewMessage i img, Publish i (Some img)]\<rparr>)
         | None \<Rightarrow>
             scan_images rest m names nCams (st\<lparr>effects := effects st @ [Publish i None]\<rparr>))
      else scan_images rest m names nCams st)"

definition buffer_imu :: "bag_message \<Rightarrow> string \<Rightarrow> replay_state \<Rightarrow> replay_state" where
  "buffer_imu m imuTopic st =
     (if msg_topic m = imuTopic then
        (case instantiate_imu m of
           Some imu \<Rightarrow> st\<lparr>imuBuffer := trim_buffer (imuBuffer st @ [imu])\<rparr>
         | None \<Rightarrow> st)
      else st)"

definition count_init :: "replay_state \<Rightarrow> nat" where
  \<comment> \<open>\<^verbatim>\<open>init.count()\<close>\<close>
  "count_init st = length (filter (\<lambda>b. b) (init st))"

definition replay_message ::
  "env \<Rightarrow> string list list \<Rightarrow> string \<Rightarrow> bag_message \<Rightarrow> replay_state \<Rightarrow> flow" where
  \<comment> \<open>the body of the replay loop after the \<^verbatim>\<open>ros::ok()\<close> test\<close>
  "replay_message e ns imuTopic m st =
     (if count_init st < N_CAMERAS then
        (case scan_camera_info [0 ..< N_CAMERAS] m (camInfoTopicNames ns) st of
           Next st1 \<Rightarrow>
             if count_init st1 = N_CAMERAS then
               (case assemble_rig ns 0 (cameras st1) of
                  Some failure \<Rightarrow> Abort failure st1
                | None \<Rightarrow>
                    if \<not> scInitOk e then
                      Abort (Exit 1)
                        (st1\<lparr>sc := True,
                             effects := effects st1
                               @ [LogError ''Failed to initialize extrinsic calibration.'']\<rparr>)
                    else Next (st1\<lparr>sc := True, effects := effects st1 @ [RegisterCallback]\<rparr>))
             else Next st1
         | other \<Rightarrow> other)
      else if readIntermediateData e then Break st
      else
        (case scan_images [0 ..< N_CAMERAS] m (camImageTopicNames ns) (count_cameras ns) st of
           Next st1 \<Rightarrow> Next (buffer_imu m imuTopic st1)
         | other \<Rightarrow> other))"

fun replay ::
  "env \<Rightarrow> string list list \<Rightarrow> string \<Rightarrow> bag_message list \<Rightarrow> replay_state \<Rightarrow> flow" where
  \<comment> \<open>\<^verbatim>\<open>BOOST_FOREACH\<close> over the view\<close>
  "replay e ns imuTopic [] st = Next st"
| "replay e ns imuTopic (m # ms) st =
     (let st0 = st\<lparr>okCalls := okCalls st + 1\<rparr> in
      if \<not> rosOk e (okCalls st) then Break st0
      else case replay_message e ns imuTopic m st0 of
        Next st1 \<Rightarrow> replay e ns imuTopic ms st1
      | other \<Rightarrow> other)"

definition imu_message :: "string \<Rightarrow> imu_msg \<Rightarrow> bag_message" where
  \<comment> \<open>a message of the bag on the IMU topic that holds the sample \<open>imu\<close>\<close>
  "imu_message imuTopic imu = \<lparr>msg_topic = imuTopic, msg_payload = ImuData imu\<rparr>"

definition image_phase :: "env \<Rightarrow> string list list \<Rightarrow> replay_state \<Rightarrow> bool" where
  \<comment> \<open>the replay loop is past the initialisation: all four bits of \<^verbatim>\<open>init\<close> are set, the run
      is not one with \<^verbatim>\<open>--intermediate\<close>, and the rig has the four cameras the synchronizer
      was built from\<close>
  "image_phase e ns st =
     (\<not> count_init st < N_CAMERAS \<and> \<not> readIntermediateData e \<and> N_CAMERAS \<le> count_cameras ns)"

definition initial_replay_state :: "nat \<Rightarrow> replay_state" where
  "initial_replay_state nCams =
     \<lparr>init = replicate N_CAMERAS False, cameras = replicate nCams None, sc = False,
      imuBuffer = [], effects = [], okCalls = 0\<rparr>"

definition finish :: "env \<Rightarrow> string list list \<Rightarrow> replay_state \<Rightarrow> outcome \<times> effect list" where
  \<comment> \<open>from \<^verbatim>\<open>bag.close()\<close> to the end of \<^verbatim>\<open>main\<close>\<close>
  "finish e ns st =
     (if \<not> rosOk e (okCalls st) then (Exit 1, effects st @ [LogError ''Aborted.''])
      else if \<not> sc st then (NullDeref, effects st)
      else (Exit 0,
            effects st @ [ScRun, WriteCalibration] @ map SetCameraInfo (camInfoTopicNames ns)
              @ [WritePoses]))"

fun parser_log :: "config_error \<Rightarrow> effect list" where
  \<comment> \<open>the \<^verbatim>\<open>ROS_ERROR\<close> line that \<^verbatim>\<open>parseConfigFile\<close> writes before it returns false\<close>
  "parser_log CannotOpen = []"
| "parser_log StereoImproper = [LogError ''The stereo camera sensor is improperly defined.'']"
| "parser_log MonoImproper = [LogError ''The mono camera sensor is improperly defined.'']"
| "parser_log DuplicateIMU = [LogError ''A duplicate definition was found for the imu sensor.'']"
| "parser_log IMUImproper = [LogError ''The IMU sensor is improperly defined.'']"
| "parser_log (UnknownSensor token) = [LogError (''Unknown sensor type: '' @ token)]"
| "parser_log MissingStereoOrIMU = []"

definition main :: "env \<Rightarrow> outcome \<times> effect list" where
  "main e =
     (if helpRequested e then (Exit 1, [])
      else case parseConfigFile (configFile e) of
        Inl err \<Rightarrow>
          (Exit 1, parser_log err @ [LogError ''Failed to read configuration file''])
      | Inr (ns, imuTopic) \<Rightarrow>
          (let nCams = count_cameras ns in
           case bagMessages e of
             None \<Rightarrow> (Exit 1, [LogError ''Unable to open bag file''])
           | Some msgs \<Rightarrow>
               (let topics = camInfoTopicNames ns @ camImageTopicNames ns @ [imuTopic];
                    view = filter (\<lambda>m. msg_topic m \<in> set topics) msgs
                in if \<not> sync_subscribers nCams then (OutOfRange, [])
                   else if readIntermediateData e \<and> \<not> extrinsicsReadable e then
                     (Exit 1, [LogError ''Failed to read intermediate camera extrinsic file.''])
                   else
                     (case replay e ns imuTopic view (initial_replay_state nCams) of
                        Abort out st \<Rightarrow> (out, effects st)
                      | Next st \<Rightarrow> finish e ns st
                      | Break st \<Rightarrow> finish e ns st))))"

subsection \<open>Example environments\<close>

definition always_ok :: "nat \<Rightarrow> bool" where
  "always_ok k = True"

definition example_env :: "string option \<Rightarrow> bag_message list option \<Rightarrow> env" where
  \<comment> \<open>a run without \<^verbatim>\<open>--help\<close> and \<^verbatim>\<open>--intermediate\<close>, never interrupted\<close>
  "example_env file bag =
     \<lparr>helpRequested = False, configFile = file, bagMessages = bag,
      readIntermediateData = False, extrinsicsReadable = True, scInitOk = True,
      rosOk = always_ok\<rparr>"

definition example_toCv :: "image_msg \<Rightarrow> string + nat" where
  \<comment> \<open>a conversion that fails on images with no data\<close>
  "example_toCv m = (if image_data m = 0 then Inl ''empty image'' else Inr (image_data m))"

definition example_imu :: "nat \<Rightarrow> imu_msg" where
  "example_imu t = \<lparr>imu_stamp = t, imu_reading = 0\<rparr>"

definition example_imu_message :: "nat \<Rightarrow> bag_message" where
  "example_imu_message t = \<lparr>msg_topic = ''/imu'', msg_payload = ImuData (example_imu t)\<rparr>"

definition example_rig :: "string list list" where
  "example_rig = [[''/cam0'', ''/cam1''], [''/cam2'', ''/cam3'']]"

definition calibrated_state :: replay_state where
  \<comment> \<open>a state of the replay after the initialisation, with a full buffer\<close>
  "calibrated_state =
     \<lparr>init = replicate N_CAMERAS True, cameras = [Some 0, Some 1, Some 2, Some 3], sc = True,
      imuBuffer = replicate 50 (example_imu 7), effects = [RegisterCallback], okCalls = 4\<rparr>"

definition example_config :: string where
  \<comment> \<open>a stereo pair, a single camera, an empty line and the IMU\<close>
  "example_config = ''stereo /cam0 /cam1\<newline>mono /cam2\<newline>\<newline>imu /imu\<newline>''"

definition duplicate_imu_config :: string where
  "duplicate_imu_config = ''stereo /cam0 /cam1\<newline>imu /a\<newline>imu /b''"

definition two_pairs_config :: string where
  "two_pairs_config = ''stereo /cam0 /cam1\<newline>Stereo /cam2 /cam3\<newline>imu /imu\<newline>''"

definition example_image :: image_msg where
  "example_image = \<lparr>image_stamp = 5, image_data = 1\<rparr>"

definition four_camera_bag :: "bag_message list" where
  \<comment> \<open>the camera information of four cameras, an inertial sample and an image\<close>
  "four_camera_bag =
     [\<lparr>msg_topic = ''/cam0/camera_info'', msg_payload = CameraInfoData 0\<rparr>,
      \<lparr>msg_topic = ''/cam1/camera_info'', msg_payload = CameraInfoData 1\<rparr>,
      \<lparr>msg_topic = ''/cam2/camera_info'', msg_payload = CameraInfoData 2\<rparr>,
      \<lparr>msg_topic = ''/cam3/camera_info'', msg_payload = CameraInfoData 3\<rparr>,
      example_imu_message 5,
      \<lparr>msg_topic = ''/cam0/image_raw'', msg_payload = ImageData example_image\<rparr>]"

subsection \<open>What a successful run over some lines has established\<close>

definition lines_summary :: "string list \<Rightarrow> parse_state \<Rightarrow> parse_state \<Rightarrow> bool" where
  "lines_summary ls st st' =
     (hasStereo st' = (hasStereo st \<or> (\<exists>l\<in>set ls. is_stereo_line l))
      \<and> hasIMU st' = (hasIMU st \<or> (\<exists>l\<in>set ls. is_imu_line l))
      \<and> length (filter is_imu_line ls) \<le> (if hasIMU st then 0 else 1)
      \<and> filter is_unknown_line ls = []
      \<and> count_cameras (cameraNs st') =
           count_cameras (cameraNs st) + 2 * length (filter is_stereo_line ls)
             + length (filter is_mono_line ls))"

subsection \<open>A rig with a fifth camera\<close>

definition no_fifth :: "replay_state \<Rightarrow> bool" where
  \<comment> \<open>there is a camera of index 4, it is still a null pointer, and \<^verbatim>\<open>sc\<close> is null\<close>
  "no_fifth st = (4 < length (cameras st) \<and> cameras st ! 4 = None \<and> \<not> sc st)"

definition pair_or_single :: "string list list \<Rightarrow> bool" where
  "pair_or_single ns = list_all (\<lambda>n. length n = 1 \<or> length n = 2) ns"

definition five_cameras_config :: string where
  "five_cameras_config =
     ''stereo /cam0 /cam1\<newline>stereo /cam2 /cam3\<newline>mono /cam4\<newline>imu /imu''"

subsection \<open>Runs that take the same decisions\<close>

definition same_flags :: "parse_state \<Rightarrow> parse_state \<Rightarrow> bool" where
  "same_flags st st' = (hasStereo st = hasStereo st' \<and> hasIMU st = hasIMU st')"

definition same_decision ::
  "config_error + parse_state \<Rightarrow> config_error + parse_state \<Rightarrow> bool" where
  \<comment> \<open>both runs have returned false, or both go on with the same flags\<close>
  "same_decision r r' =
     (case (r, r') of
        (Inr st, Inr st') \<Rightarrow> same_flags st st'
      | (Inl _, Inl _) \<Rightarrow> True
      | _ \<Rightarrow> False)"

section \<open>Tokens\<close>

lemma size_t_add_npos: "size_t_add npos (Suc 0) = 0"
  by (simp add: size_t_add_def npos_def)

lemma parseToken_nonempty: "s \<noteq> [] \<Longrightarrow> \<exists>t s' p. parseTokenFromString s = Some (t, s', p)"
  by (simp add: parseTokenFromString_def Let_def)

lemma parseToken_no_space:
  assumes "s \<noteq> []" and "CHR '' '' \<notin> set s" and "length s \<le> npos"
  shows "parseTokenFromString s = Some (s, s, npos)"
  using assms
  by (simp add: parseTokenFromString_def find_space_def substr_def erase_def size_t_add_npos Let_def)

lemma takeWhile_no_space:
  "CHR '' '' \<notin> set a \<Longrightarrow> takeWhile (\<lambda>c. c \<noteq> CHR '' '') (a @ CHR '' '' # r) = a"
  by (induction a) auto

lemma parseToken_space:
  assumes "CHR '' '' \<notin> set a" and "length a < npos"
  shows "parseTokenFromString (a @ CHR '' '' # r) = Some (a, r, length a)"
proof -
  have "size_t_add (length a) (Suc 0) = Suc (length a)"
    using assms(2) by (simp add: size_t_add_def npos_def)
  then show ?thesis
    using takeWhile_no_space [OF assms(1)]
    by (simp add: parseTokenFromString_def find_space_def substr_def erase_def Let_def)
qed

lemma iequals_length: "iequals a b \<Longrightarrow> length a = length b"
  by (induction a b rule: iequals.induct) auto

lemma parseToken_keyword:
  assumes "l \<noteq> []"
  shows "\<exists>token s1 p. parseTokenFromString l = Some (token, s1, p)
           \<and> (\<forall>k. length k < npos \<longrightarrow> iequals token k = iequals (first_word l) k)"
proof (cases "CHR '' '' \<in> set l")
  case True
  have "take (length (takeWhile (\<lambda>c. c \<noteq> CHR '' '') l)) l = first_word l"
    unfolding first_word_def by (rule takeWhile_eq_take [symmetric])
  then show ?thesis
    using assms True
    by (simp add: parseTokenFromString_def find_space_def substr_def Let_def)
next
  case False
  then have fw: "first_word l = l"
    by (auto simp: first_word_def)
  have tok: "parseTokenFromString l = Some (take npos l, l, npos)"
    using assms False
    by (simp add: parseTokenFromString_def find_space_def substr_def erase_def
        size_t_add_npos Let_def)
  have "iequals (take npos l) k = iequals l k" if "length k < npos" for k
  proof (cases "length l \<le> npos")
    case True
    then show ?thesis by simp
  next
    case False
    then have "length (take npos l) \<noteq> length k" and "length l \<noteq> length k"
      using that by auto
    then show ?thesis
      using iequals_length by blast
  qed
  then show ?thesis
    using tok fw by simp
qed

lemma keyword_lengths:
  "length ''stereo'' < npos" "length ''mono'' < npos" "length ''imu'' < npos"
  by (simp_all add: npos_def)

lemma line_kinds_exclusive:
  "is_stereo_line l \<Longrightarrow> \<not> is_mono_line l \<and> \<not> is_imu_line l \<and> \<not> is_unknown_line l"
  "is_mono_line l \<Longrightarrow> \<not> is_stereo_line l \<and> \<not> is_imu_line l \<and> \<not> is_unknown_line l"
  "is_imu_line l \<Longrightarrow> \<not> is_stereo_line l \<and> \<not> is_mono_line l \<and> \<not> is_unknown_line l"
  "is_unknown_line l \<Longrightarrow> \<not> is_stereo_line l \<and> \<not> is_mono_line l \<and> \<not> is_imu_line l"
  "l = [] \<Longrightarrow> \<not> is_stereo_line l \<and> \<not> is_mono_line l \<and> \<not> is_imu_line l \<and> \<not> is_unknown_line l"
  by (auto simp: is_stereo_line_def is_mono_line_def is_imu_line_def is_unknown_line_def
      dest!: iequals_length)

section \<open>One line\<close>

lemma parse_line_empty: "parse_line [] st = Inr st"
  by (simp add: parse_line_def)

lemma parse_line_unknown:
  assumes "is_unknown_line l"
  shows "\<exists>token. parse_line l st = Inl (UnknownSensor token)"
proof -
  from assms have ne: "l \<noteq> []"
    by (simp add: is_unknown_line_def)
  obtain token s1 p where tok: "parseTokenFromString l = Some (token, s1, p)"
    and kw: "\<And>k. length k < npos \<Longrightarrow> iequals token k = iequals (first_word l) k"
    using parseToken_keyword [OF ne] by blast
  have "\<not> iequals token ''stereo''" "\<not> iequals token ''mono''" "\<not> iequals token ''imu''"
    using assms kw keyword_lengths by (simp_all add: is_unknown_line_def)
  then show ?thesis
    using ne tok by (simp add: parse_line_def)
qed

lemma parse_line_stereo:
  assumes "is_stereo_line l"
  shows "parse_line l st = Inl StereoImproper
       \<or> (\<exists>L R. parse_line l st
                  = Inr (st\<lparr>cameraNs := cameraNs st @ [[L, R]], hasStereo := True\<rparr>))"
proof -
  from assms have ne: "l \<noteq> []"
    by (simp add: is_stereo_line_def)
  obtain token s1 p where tok: "parseTokenFromString l = Some (token, s1, p)"
    and kw: "\<And>k. length k < npos \<Longrightarrow> iequals token k = iequals (first_word l) k"
    using parseToken_keyword [OF ne] by blast
  have "iequals token ''stereo''"
    using assms kw keyword_lengths by (simp add: is_stereo_line_def)
  then show ?thesis
    using ne tok by (auto simp: parse_line_def split: option.splits)
qed

lemma parse_line_mono:
  assumes "is_mono_line l"
  shows "parse_line l st = Inl MonoImproper
       \<or> (\<exists>T. parse_line l st = Inr (st\<lparr>cameraNs := cameraNs st @ [[T]]\<rparr>))"
proof -
  from assms have ne: "l \<noteq> []"
    by (simp add: is_mono_line_def)
  obtain token s1 p where tok: "parseTokenFromString l = Some (token, s1, p)"
    and kw: "\<And>k. length k < npos \<Longrightarrow> iequals token k = iequals (first_word l) k"
    using parseToken_keyword [OF ne] by blast
  have "iequals token ''mono''" "\<not> iequals token ''stereo''"
    using assms kw keyword_lengths line_kinds_exclusive(2) [OF assms]
    by (simp_all add: is_mono_line_def is_stereo_line_def)
  then show ?thesis
    using ne tok by (auto simp: parse_line_def split: option.splits)
qed

lemma parse_line_imu:
  assumes "is_imu_line l"
  shows "(hasIMU st \<and> parse_line l st = Inl DuplicateIMU)
       \<or> (\<not> hasIMU st \<and> parse_line l st = Inl IMUImproper)
       \<or> (\<not> hasIMU st \<and> (\<exists>T. parse_line l st = Inr (st\<lparr>imuTopicName := T, hasIMU := True\<rparr>)))"
proof -
  from assms have ne: "l \<noteq> []"
    by (simp add: is_imu_line_def)
  obtain token s1 p where tok: "parseTokenFromString l = Some (token, s1, p)"
    and kw: "\<And>k. length k < npos \<Longrightarrow> iequals token k = iequals (first_word l) k"
    using parseToken_keyword [OF ne] by blast
  have "iequals token ''imu''" "\<not> iequals token ''stereo''" "\<not> iequals token ''mono''"
    using assms kw keyword_lengths line_kinds_exclusive(3) [OF assms]
    by (simp_all add: is_imu_line_def is_stereo_line_def is_mono_line_def)
  then show ?thesis
    using ne tok by (auto simp: parse_line_def split: option.splits)
qed

lemma line_kind_cases:
  "l = [] \<or> is_stereo_line l \<or> is_mono_line l \<or> is_imu_line l \<or> is_unknown_line l"
  by (auto simp: is_stereo_line_def is_mono_line_def is_imu_line_def is_unknown_line_def)

section \<open>The list of lines\<close>

lemma getlines_nonempty: "getlines cs \<noteq> []"
  by (induction cs) (auto split: list.splits)

lemma getlines_getline:
  "getlines unread =
     (case getline unread of (s, rest, good) \<Rightarrow> if good then s # getlines rest else [s])"
proof (induction unread)
  case Nil
  show ?case by (simp add: getline_def)
next
  case (Cons c cs)
  show ?case
  proof (cases "c = newline")
    case True
    then show ?thesis by (simp add: getline_def)
  next
    case False
    then show ?thesis
      using Cons getlines_nonempty [of cs]
      by (auto simp: getline_def Let_def split: list.splits if_splits)
  qed
qed

lemma read_loop_lines: "read_loop unread st = parse_lines (getlines unread) st"
proof (induction unread st rule: read_loop.induct)
  case (1 unread st)
  obtain s rest good where g: "getline unread = (s, rest, good)"
    by (cases "getline unread") auto
  show ?case
  proof (cases "parse_line s st")
    case (Inl e)
    then show ?thesis
      using g by (subst read_loop.simps, subst getlines_getline) simp
  next
    case (Inr st')
    show ?thesis
    proof (cases good)
      case True
      then have "read_loop rest st' = parse_lines (getlines rest) st'"
        using "1.IH" [of s "(rest, good)" rest good st'] g Inr by simp
      then show ?thesis
        using g Inr True by (subst read_loop.simps, subst getlines_getline) simp
    next
      case False
      then show ?thesis
        using g Inr by (subst read_loop.simps, subst getlines_getline) simp
    qed
  qed
qed

lemma parseConfigFile_lines:
  "parseConfigFile (Some content) =
     (case parse_lines (getlines content) init_parse_state of
        Inl e \<Rightarrow> Inl e
      | Inr st \<Rightarrow>
          if \<not> hasStereo st \<or> \<not> hasIMU st then Inl MissingStereoOrIMU
          else Inr (cameraNs st, imuTopicName st))"
  by (simp add: parseConfigFile_def read_loop_lines)

lemma foldl_count:
  "foldl (\<lambda>nCams n. nCams + length n) a ns = a + length (concat ns)"
  by (induction ns arbitrary: a) simp_all

lemma count_cameras_concat: "count_cameras ns = length (concat ns)"
  by (simp add: count_cameras_def foldl_count)

lemma line_cameras_step:
  assumes "parse_line l st = Inr st'"
  shows "cameraNs st' = cameraNs st @ line_cameras l"
  using assms
  by (auto simp: parse_line_def line_cameras_def init_parse_state_def
      split: if_splits option.splits)

lemma lines_summary_Nil: "lines_summary [] st st"
  by (simp add: lines_summary_def)

lemma lines_summary_Cons:
  assumes one: "parse_line l st = Inr st1" and rest: "lines_summary ls st1 st'"
  shows "lines_summary (l # ls) st st'"
proof -
  consider (empty) "l = []" | (stereo) "is_stereo_line l" | (mono) "is_mono_line l"
    | (imu) "is_imu_line l" | (unknown) "is_unknown_line l"
    using line_kind_cases by blast
  then show ?thesis
  proof cases
    case empty
    then have "st1 = st"
      using one by (simp add: parse_line_empty)
    then show ?thesis
      using rest line_kinds_exclusive(5) [OF empty]
      by (simp add: lines_summary_def)
  next
    case stereo
    then obtain L R where
      st1: "st1 = st\<lparr>cameraNs := cameraNs st @ [[L, R]], hasStereo := True\<rparr>"
      using parse_line_stereo [OF stereo, of st] one by auto
    have "count_cameras (cameraNs st1) = count_cameras (cameraNs st) + 2"
      by (simp add: st1 count_cameras_concat)
    moreover have "hasStereo st1" "hasIMU st1 = hasIMU st"
      by (simp_all add: st1)
    ultimately show ?thesis
      using rest line_kinds_exclusive(1) [OF stereo] stereo
      by (simp add: lines_summary_def)
  next
    case mono
    then obtain T where st1: "st1 = st\<lparr>cameraNs := cameraNs st @ [[T]]\<rparr>"
      using parse_line_mono [OF mono, of st] one by auto
    have "count_cameras (cameraNs st1) = count_cameras (cameraNs st) + 1"
      by (simp add: st1 count_cameras_concat)
    moreover have "hasStereo st1 = hasStereo st" "hasIMU st1 = hasIMU st"
      by (simp_all add: st1)
    ultimately show ?thesis
      using rest line_kinds_exclusive(2) [OF mono] mono
      by (simp add: lines_summary_def)
  next
    case imu
    then obtain T where no: "\<not> hasIMU st" and st1: "st1 = st\<lparr>imuTopicName := T, hasIMU := True\<rparr>"
      using parse_line_imu [OF imu, of st] one by auto
    have "count_cameras (cameraNs st1) = count_cameras (cameraNs st)"
      "hasStereo st1 = hasStereo st" "hasIMU st1"
      by (simp_all add: st1)
    then show ?thesis
      using rest line_kinds_exclusive(3) [OF imu] imu no
      by (simp add: lines_summary_def)
  next
    case unknown
    then show ?thesis
      using parse_line_unknown [OF unknown, of st] one by auto
  qed
qed

lemma parse_lines_summary:
  "parse_lines ls st = Inr st' \<Longrightarrow> lines_summary ls st st'"
proof (induction ls arbitrary: st)
  case Nil
  then show ?case by (simp add: lines_summary_Nil)
next
  case (Cons l ls)
  then obtain st1 where one: "parse_line l st = Inr st1" and rest: "parse_lines ls st1 = Inr st'"
    by (auto split: sum.splits)
  show ?case
    by (rule lines_summary_Cons [OF one Cons.IH [OF rest]])
qed


lemma parse_lines_cameras:
  "parse_lines ls st = Inr st' \<Longrightarrow> cameraNs st' = cameraNs st @ concat (map line_cameras ls)"
proof (induction ls arbitrary: st)
  case Nil
  then show ?case by simp
next
  case (Cons l ls)
  then obtain st1 where one: "parse_line l st = Inr st1" and rest: "parse_lines ls st1 = Inr st'"
    by (auto split: sum.splits)
  show ?case
    using Cons.IH [OF rest] line_cameras_step [OF one] by simp
qed

section \<open>Lines of the recognized forms\<close>

lemma split_spaces_nonempty: "split_spaces l \<noteq> []"
  by (induction l) (auto split: list.splits)

lemma split_spaces_single:
  "split_spaces l = [w] \<Longrightarrow> l = w \<and> CHR '' '' \<notin> set w"
proof (induction l arbitrary: w)
  case Nil
  then show ?case by simp
next
  case (Cons c cs)
  show ?case
  proof (cases "c = CHR '' ''")
    case True
    then show ?thesis
      using Cons.prems split_spaces_nonempty [of cs] by simp
  next
    case False
    then obtain w' where "split_spaces cs = [w']" and "w = c # w'"
      using Cons.prems split_spaces_nonempty [of cs] by (auto split: list.splits)
    then show ?thesis
      using Cons.IH False by simp
  qed
qed

lemma split_spaces_Cons:
  "split_spaces l = w # v # vs \<Longrightarrow>
     \<exists>r. l = w @ CHR '' '' # r \<and> CHR '' '' \<notin> set w \<and> split_spaces r = v # vs"
proof (induction l arbitrary: w)
  case Nil
  then show ?case by simp
next
  case (Cons c cs)
  show ?case
  proof (cases "c = CHR '' ''")
    case True
    then show ?thesis
      using Cons.prems by simp
  next
    case False
    then obtain w' where sp: "split_spaces cs = w' # v # vs" and w: "w = c # w'"
      using Cons.prems by (auto split: list.splits)
    obtain r where "cs = w' @ CHR '' '' # r" "CHR '' '' \<notin> set w'" "split_spaces r = v # vs"
      using Cons.IH [OF sp] by blast
    then show ?thesis
      using False w by simp
  qed
qed

lemma declaration_stereo_shape:
  assumes "spec_declaration l = Some (Stereo a b)"
  shows "\<exists>kw. l = kw @ CHR '' '' # a @ CHR '' '' # b \<and> iequals kw ''stereo''
           \<and> CHR '' '' \<notin> set kw \<and> CHR '' '' \<notin> set a \<and> CHR '' '' \<notin> set b \<and> a \<noteq> [] \<and> b \<noteq> []"
proof -
  from assms have "declared_sensor (split_spaces l) = Some (Stereo a b)"
    by (simp add: spec_declaration_def)
  then obtain kw where sp: "split_spaces l = [kw, a, b]"
    and kw: "iequals kw ''stereo''" and ne: "a \<noteq> []" "b \<noteq> []"
    by (cases "split_spaces l" rule: declared_sensor.cases) (simp_all split: if_splits)
  obtain r where l: "l = kw @ CHR '' '' # r" and nkw: "CHR '' '' \<notin> set kw"
    and r: "split_spaces r = [a, b]"
    using split_spaces_Cons [OF sp] by blast
  obtain r' where r': "r = a @ CHR '' '' # r'" and na: "CHR '' '' \<notin> set a"
    and b: "split_spaces r' = [b]"
    using split_spaces_Cons [OF r] by blast
  have "r' = b" "CHR '' '' \<notin> set b"
    using split_spaces_single [OF b] by simp_all
  then show ?thesis
    using l r' nkw na kw ne by simp
qed

lemma declaration_mono_shape:
  assumes "spec_declaration l = Some (Mono a)"
  shows "\<exists>kw. l = kw @ CHR '' '' # a \<and> iequals kw ''mono''
           \<and> CHR '' '' \<notin> set kw \<and> CHR '' '' \<notin> set a \<and> a \<noteq> []"
proof -
  from assms have "declared_sensor (split_spaces l) = Some (Mono a)"
    by (simp add: spec_declaration_def)
  then obtain kw where sp: "split_spaces l = [kw, a]" and ne: "a \<noteq> []"
    and kw: "iequals kw ''mono''"
    by (cases "split_spaces l" rule: declared_sensor.cases) (simp_all split: if_splits)
  obtain r where l: "l = kw @ CHR '' '' # r" and nkw: "CHR '' '' \<notin> set kw"
    and r: "split_spaces r = [a]"
    using split_spaces_Cons [OF sp] by blast
  have "r = a" "CHR '' '' \<notin> set a"
    using split_spaces_single [OF r] by simp_all
  then show ?thesis
    using l nkw kw ne by simp
qed

lemma declaration_imu_shape:
  assumes "spec_declaration l = Some (Imu a)"
  shows "\<exists>kw. l = kw @ CHR '' '' # a \<and> iequals kw ''imu''
           \<and> CHR '' '' \<notin> set kw \<and> CHR '' '' \<notin> set a \<and> a \<noteq> []"
proof -
  from assms have "declared_sensor (split_spaces l) = Some (Imu a)"
    by (simp add: spec_declaration_def)
  then obtain kw where sp: "split_spaces l = [kw, a]" and ne: "a \<noteq> []"
    and kw: "iequals kw ''imu''"
    by (cases "split_spaces l" rule: declared_sensor.cases) (simp_all split: if_splits)
  obtain r where l: "l = kw @ CHR '' '' # r" and nkw: "CHR '' '' \<notin> set kw"
    and r: "split_spaces r = [a]"
    using split_spaces_Cons [OF sp] by blast
  have "r = a" "CHR '' '' \<notin> set a"
    using split_spaces_single [OF r] by simp_all
  then show ?thesis
    using l nkw kw ne by simp
qed

lemma toupper_space: "toupper x = CHR '' '' \<longleftrightarrow> x = CHR '' ''"
  by (simp add: toupper_def upper_table_def)

lemma iequals_space: "iequals a b \<Longrightarrow> CHR '' '' \<in> set a \<longleftrightarrow> CHR '' '' \<in> set b"
proof (induction a b rule: iequals.induct)
  case (2 x xs y ys)
  then have "toupper x = toupper y" and "iequals xs ys"
    by simp_all
  then have "x = CHR '' '' \<longleftrightarrow> y = CHR '' ''"
    by (metis toupper_space)
  then show ?case
    using 2 by auto
qed simp_all

lemma first_word_space: "CHR '' '' \<notin> set kw \<Longrightarrow> first_word (kw @ CHR '' '' # r) = kw"
  by (simp add: first_word_def takeWhile_no_space)

lemma parse_line_stereo_form:
  assumes "iequals kw ''stereo''" and "CHR '' '' \<notin> set a" and "CHR '' '' \<notin> set b"
    and "b \<noteq> []" and "length (kw @ CHR '' '' # a @ CHR '' '' # b) < npos"
  shows "parse_line (kw @ CHR '' '' # a @ CHR '' '' # b) st
           = Inr (st\<lparr>cameraNs := cameraNs st @ [[a, b]], hasStereo := True\<rparr>)"
proof -
  have nkw: "CHR '' '' \<notin> set kw"
    using iequals_space [OF assms(1)] by simp
  have t1: "parseTokenFromString (kw @ CHR '' '' # a @ CHR '' '' # b)
              = Some (kw, a @ CHR '' '' # b, length kw)"
    using assms(5) by (intro parseToken_space nkw) simp
  have t2: "parseTokenFromString (a @ CHR '' '' # b) = Some (a, b, length a)"
    using assms(5) by (intro parseToken_space assms(2)) simp
  have t3: "parseTokenFromString b = Some (b, b, npos)"
    using assms(5) by (intro parseToken_no_space assms(3,4)) simp
  show ?thesis
    using assms(1) t1 t2 t3 by (simp add: parse_line_def)
qed

lemma parse_line_mono_form:
  assumes "iequals kw ''mono''" and "CHR '' '' \<notin> set a" and "a \<noteq> []"
    and "length (kw @ CHR '' '' # a) < npos"
  shows "parse_line (kw @ CHR '' '' # a) st = Inr (st\<lparr>cameraNs := cameraNs st @ [[a]]\<rparr>)"
proof -
  have nkw: "CHR '' '' \<notin> set kw"
    using iequals_space [OF assms(1)] by simp
  have ns: "\<not> iequals kw ''stereo''"
    using iequals_length [OF assms(1)] iequals_length [of kw "''stereo''"] by auto
  have t1: "parseTokenFromString (kw @ CHR '' '' # a) = Some (kw, a, length kw)"
    using assms(4) by (intro parseToken_space nkw) simp
  have t2: "parseTokenFromString a = Some (a, a, npos)"
    using assms(4) by (intro parseToken_no_space assms(2,3)) simp
  show ?thesis
    using assms(1) ns t1 t2 by (simp add: parse_line_def)
qed

lemma parse_line_imu_form:
  assumes "iequals kw ''imu''" and "CHR '' '' \<notin> set a" and "a \<noteq> []"
    and "length (kw @ CHR '' '' # a) < npos" and "\<not> hasIMU st"
  shows "parse_line (kw @ CHR '' '' # a) st = Inr (st\<lparr>imuTopicName := a, hasIMU := True\<rparr>)"
proof -
  have nkw: "CHR '' '' \<notin> set kw"
    using iequals_space [OF assms(1)] by simp
  have ns: "\<not> iequals kw ''stereo''" "\<not> iequals kw ''mono''"
    using iequals_length [OF assms(1)] iequals_length [of kw "''stereo''"]
      iequals_length [of kw "''mono''"] by auto
  have t1: "parseTokenFromString (kw @ CHR '' '' # a) = Some (kw, a, length kw)"
    using assms(4) by (intro parseToken_space nkw) simp
  have t2: "parseTokenFromString a = Some (a, a, npos)"
    using assms(4) by (intro parseToken_no_space assms(2,3)) simp
  show ?thesis
    using assms(1,5) ns t1 t2 by (simp add: parse_line_def)
qed

lemma declaration_parses:
  assumes "is_declaration l" and "length l < npos"
  shows "(is_imu_line l \<and> hasIMU st) \<or> (\<exists>st'. parse_line l st = Inr st')"
proof -
  from assms(1) obtain d where d: "spec_declaration l = Some d"
    by (auto simp: is_declaration_def)
  show ?thesis
  proof (cases d)
    case (Stereo a b)
    then obtain kw where "l = kw @ CHR '' '' # a @ CHR '' '' # b" "iequals kw ''stereo''"
      "CHR '' '' \<notin> set a" "CHR '' '' \<notin> set b" "b \<noteq> []"
      using declaration_stereo_shape d by blast
    then show ?thesis
      using parse_line_stereo_form [of kw a b st] assms(2) by simp
  next
    case (Mono a)
    then obtain kw where "l = kw @ CHR '' '' # a" "iequals kw ''mono''"
      "CHR '' '' \<notin> set a" "a \<noteq> []"
      using declaration_mono_shape d by blast
    then show ?thesis
      using parse_line_mono_form [of kw a st] assms(2) by simp
  next
    case (Imu a)
    then obtain kw where l: "l = kw @ CHR '' '' # a" and kw: "iequals kw ''imu''"
      and a: "CHR '' '' \<notin> set a" "a \<noteq> []" and nkw: "CHR '' '' \<notin> set kw"
      using declaration_imu_shape d by blast
    show ?thesis
    proof (cases "hasIMU st")
      case True
      have "is_imu_line l"
        using l kw nkw by (simp add: is_imu_line_def first_word_space)
      then show ?thesis
        using True by simp
    next
      case False
      then show ?thesis
        using parse_line_imu_form [of kw a st] l kw a assms(2) by simp
    qed
  qed
qed

lemma getlines_length: "l \<in> set (getlines content) \<Longrightarrow> length l \<le> length content"
proof (induction content arbitrary: l)
  case Nil
  then show ?case by simp
next
  case (Cons c cs)
  then show ?case
    by (fastforce split: if_splits list.splits)
qed

lemma parse_lines_well_formed:
  assumes "\<forall>l\<in>set ls. length l < npos \<and> (l = [] \<or> is_declaration l)"
    and "length (filter is_imu_line ls) \<le> (if hasIMU st then 0 else 1)"
  shows "\<exists>st'. parse_lines ls st = Inr st'"
  using assms
proof (induction ls arbitrary: st)
  case Nil
  then show ?case by simp
next
  case (Cons l ls)
  have imu: "\<not> (is_imu_line l \<and> hasIMU st)"
    using Cons.prems(2) by (auto split: if_splits)
  have "\<exists>st1. parse_line l st = Inr st1"
  proof (cases "l = []")
    case True
    then show ?thesis by (simp add: parse_line_empty)
  next
    case False
    then show ?thesis
      using declaration_parses [of l st] Cons.prems(1) imu by auto
  qed
  then obtain st1 where one: "parse_line l st = Inr st1"
    by blast
  have "lines_summary [l] st st1"
    by (rule lines_summary_Cons [OF one lines_summary_Nil])
  then have h: "hasIMU st1 = (hasIMU st \<or> is_imu_line l)"
    by (simp add: lines_summary_def)
  have "length (filter is_imu_line ls) \<le> (if hasIMU st1 then 0 else 1)"
    using Cons.prems(2) h by (auto split: if_splits)
  then obtain st' where "parse_lines ls st1 = Inr st'"
    using Cons.IH [of st1] Cons.prems(1) by auto
  then show ?case
    using one by simp
qed

section \<open>Evaluation on concrete files\<close>

lemmas parser_eval =
  parseConfigFile_lines parse_line_def parseTokenFromString_def find_space_def substr_def
  erase_def size_t_add_def npos_def toupper_def upper_table_def init_parse_state_def
  newline_def Let_def accepted_def

section \<open>Claims about the configuration file\<close>

text \<open>
  C3. The claim: a line whose first token is a sensor type but which lacks one of its
  topics makes \<^verbatim>\<open>parseConfigFile\<close> return false. The code has the three error returns
  for it and misses: after the last token of a line \<^verbatim>\<open>find\<close> returns \<^verbatim>\<open>npos\<close>,
  \<^verbatim>\<open>pos + 1\<close> wraps to 0 and \<^verbatim>\<open>erase(0, 0)\<close> removes nothing, so the next call reads the
  same token again. A \<^verbatim>\<open>stereo\<close> line with one topic and an \<^verbatim>\<open>imu\<close> line with none are
  accepted; the one topic becomes both cameras of the pair and the word \<^verbatim>\<open>imu\<close> the
  IMU topic.
\<close>

theorem C3_missing_topic_accepted:
  "parseConfigFile (Some ''stereo /cam0\<newline>imu'') = Inr ([[''/cam0'', ''/cam0'']], ''imu'')"
  by (simp add: parser_eval)


theorem C3_missing_topic_accepted_witness:
  "accepted (parseConfigFile (Some ''stereo /cam0\<newline>imu''))"
  using C3_missing_topic_accepted by (simp add: accepted_def)

lemma accepted_summary:
  assumes "accepted (parseConfigFile cfg)"
  shows "\<exists>content st. cfg = Some content
           \<and> parse_lines (getlines content) init_parse_state = Inr st
           \<and> hasStereo st \<and> hasIMU st
           \<and> parseConfigFile cfg = Inr (cameraNs st, imuTopicName st)
           \<and> lines_summary (getlines content) init_parse_state st"
proof -
  from assms obtain content where cfg: "cfg = Some content"
    by (cases cfg) (auto simp: accepted_def parseConfigFile_def)
  with assms obtain st where st: "parse_lines (getlines content) init_parse_state = Inr st"
    and flags: "hasStereo st" "hasIMU st"
    by (auto simp: accepted_def parseConfigFile_lines split: sum.splits if_splits)
  then have "parseConfigFile cfg = Inr (cameraNs st, imuTopicName st)"
    using cfg by (simp add: parseConfigFile_lines)
  then show ?thesis
    using cfg st flags parse_lines_summary [OF st] by blast
qed

lemma accepted_counts:
  assumes "accepted (parseConfigFile cfg)"
  shows "\<exists>content. cfg = Some content \<and> count_lines is_unknown_line content = 0
           \<and> 1 \<le> count_lines is_stereo_line content
           \<and> count_lines is_imu_line content = 1"
proof -
  obtain content st where cfg: "cfg = Some content"
    and flags: "hasStereo st" "hasIMU st"
    and sm: "lines_summary (getlines content) init_parse_state st"
    using accepted_summary [OF assms] by blast
  have "\<exists>l\<in>set (getlines content). is_stereo_line l"
    and imu: "\<exists>l\<in>set (getlines content). is_imu_line l"
    and le: "length (filter is_imu_line (getlines content)) \<le> 1"
    and un: "filter is_unknown_line (getlines content) = []"
    using sm flags by (simp_all add: lines_summary_def init_parse_state_def)
  then have "filter is_stereo_line (getlines content) \<noteq> []"
    and "filter is_imu_line (getlines content) \<noteq> []"
    by (simp_all add: filter_empty_conv)
  then have "1 \<le> length (filter is_stereo_line (getlines content))"
    and "1 \<le> length (filter is_imu_line (getlines content))"
    by (simp_all add: Suc_le_eq)
  then show ?thesis
    using cfg le un by (simp add: count_lines_def)
qed

lemma well_formed_accepted:
  assumes "fits_size_t content" and "well_formed content"
    and "1 \<le> count_lines is_stereo_line content" and "count_lines is_imu_line content = 1"
  shows "\<exists>st. parse_lines (getlines content) init_parse_state = Inr st
           \<and> parseConfigFile (Some content) = Inr (cameraNs st, imuTopicName st)
           \<and> lines_summary (getlines content) init_parse_state st"
proof -
  have "\<forall>l\<in>set (getlines content). length l < npos \<and> (l = [] \<or> is_declaration l)"
    using assms(1,2) getlines_length [of _ content]
    by (fastforce simp: fits_size_t_def well_formed_def list_all_iff)
  moreover have "length (filter is_imu_line (getlines content))
                   \<le> (if hasIMU init_parse_state then 0 else 1)"
    using assms(4) by (simp add: count_lines_def init_parse_state_def)
  ultimately obtain st where st: "parse_lines (getlines content) init_parse_state = Inr st"
    using parse_lines_well_formed by blast
  note sm = parse_lines_summary [OF st]
  have "filter is_stereo_line (getlines content) \<noteq> []"
    and "filter is_imu_line (getlines content) \<noteq> []"
    using assms(3,4) by (auto simp: count_lines_def)
  then have "hasStereo st" "hasIMU st"
    using sm by (auto simp: lines_summary_def filter_empty_conv)
  then show ?thesis
    using st sm by (simp add: parseConfigFile_lines)
qed

text \<open>
  C1, as stated, fails: a file is accepted although one of its lines is not a sensor
  declaration. The loop skips empty lines by design.
\<close>

theorem C1_counterexample:
  "accepted (parseConfigFile (Some ''stereo /cam0 /cam1\<newline>\<newline>imu /imu''))
   \<and> \<not> list_all is_declaration (getlines ''stereo /cam0 /cam1\<newline>\<newline>imu /imu'')"
proof
  show "accepted (parseConfigFile (Some ''stereo /cam0 /cam1\<newline>\<newline>imu /imu''))"
    by (simp add: parser_eval)
  have "getlines ''stereo /cam0 /cam1\<newline>\<newline>imu /imu''
          = [''stereo /cam0 /cam1'', [], ''imu /imu'']"
    by (simp add: newline_def)
  moreover have "\<not> is_declaration []"
    by (simp add: is_declaration_def spec_declaration_def)
  ultimately show "\<not> list_all is_declaration (getlines ''stereo /cam0 /cam1\<newline>\<newline>imu /imu'')"
    by simp
qed

text \<open>
  C1, amended. \<^verbatim>\<open>parseConfigFile\<close> returns true only if the file opens, every line that
  is not empty starts with one of the three sensor types, at least one line is a
  \<^verbatim>\<open>stereo\<close> line and exactly one is an \<^verbatim>\<open>imu\<close> line; so a file with no \<^verbatim>\<open>stereo\<close>
  line, with no \<^verbatim>\<open>imu\<close> line or with two \<^verbatim>\<open>imu\<close> lines is rejected. It returns true
  whenever the file opens, every line that is not empty has one of the recognized forms
  (fields separated by single spaces), at least one line is a \<^verbatim>\<open>stereo\<close> line and exactly
  one is an \<^verbatim>\<open>imu\<close> line.
\<close>

theorem C1_config_acceptance:
  "(accepted (parseConfigFile cfg) \<longrightarrow>
      (\<exists>content. cfg = Some content \<and> count_lines is_unknown_line content = 0
         \<and> 1 \<le> count_lines is_stereo_line content \<and> count_lines is_imu_line content = 1))
   \<and> (\<forall>content. cfg = Some content \<and> fits_size_t content \<and> well_formed content
         \<and> 1 \<le> count_lines is_stereo_line content \<and> count_lines is_imu_line content = 1
       \<longrightarrow> accepted (parseConfigFile cfg))
   \<and> (\<forall>content. cfg = Some content
         \<and> (count_lines is_stereo_line content = 0 \<or> count_lines is_imu_line content = 0
              \<or> 2 \<le> count_lines is_imu_line content)
       \<longrightarrow> \<not> accepted (parseConfigFile cfg))
   \<and> \<not> accepted (parseConfigFile None)"
proof (intro conjI allI impI)
  assume "accepted (parseConfigFile cfg)"
  then show "\<exists>content. cfg = Some content \<and> count_lines is_unknown_line content = 0
         \<and> 1 \<le> count_lines is_stereo_line content \<and> count_lines is_imu_line content = 1"
    by (rule accepted_counts)
next
  fix content
  assume a: "cfg = Some content \<and> fits_size_t content \<and> well_formed content
         \<and> 1 \<le> count_lines is_stereo_line content \<and> count_lines is_imu_line content = 1"
  then obtain st :: parse_state
    where "parseConfigFile (Some content) = Inr (cameraNs st, imuTopicName st)"
    using well_formed_accepted [of content] by blast
  then show "accepted (parseConfigFile cfg)"
    using a by (simp add: accepted_def)
next
  fix content
  assume a: "cfg = Some content
         \<and> (count_lines is_stereo_line content = 0 \<or> count_lines is_imu_line content = 0
              \<or> 2 \<le> count_lines is_imu_line content)"
  show "\<not> accepted (parseConfigFile cfg)"
  proof
    assume "accepted (parseConfigFile cfg)"
    then obtain c where "cfg = Some c" "1 \<le> count_lines is_stereo_line c"
      "count_lines is_imu_line c = 1"
      using accepted_counts [of cfg] by blast
    then show False
      using a by auto
  qed
next
  show "\<not> accepted (parseConfigFile None)"
    by (simp add: parseConfigFile_def accepted_def)
qed

lemma example_config_lines:
  "getlines example_config = [''stereo /cam0 /cam1'', ''mono /cam2'', [], ''imu /imu'', []]"
  by (simp add: example_config_def newline_def)

lemma duplicate_imu_config_lines:
  "getlines duplicate_imu_config = [''stereo /cam0 /cam1'', ''imu /a'', ''imu /b'']"
  by (simp add: duplicate_imu_config_def newline_def)

lemma two_pairs_config_lines:
  "getlines two_pairs_config = [''stereo /cam0 /cam1'', ''Stereo /cam2 /cam3'', ''imu /imu'', []]"
  by (simp add: two_pairs_config_def newline_def)

lemmas line_kind_defs =
  is_stereo_line_def is_mono_line_def is_imu_line_def is_unknown_line_def first_word_def
  toupper_def upper_table_def

lemma example_lines_declarations:
  "is_declaration ''stereo /cam0 /cam1''" "is_declaration ''Stereo /cam2 /cam3''"
  "is_declaration ''mono /cam2''" "is_declaration ''imu /imu''"
  by (simp_all add: is_declaration_def spec_declaration_def toupper_def upper_table_def)

lemma example_config_facts:
  "fits_size_t example_config" "well_formed example_config"
  "count_lines is_unknown_line example_config = 0"
  "count_lines is_stereo_line example_config = 1"
  "count_lines is_mono_line example_config = 1"
  "count_lines is_imu_line example_config = 1"
proof -
  show "fits_size_t example_config"
    by (simp add: fits_size_t_def example_config_def npos_def)
  show "well_formed example_config"
    by (simp add: well_formed_def example_config_lines example_lines_declarations)
  show "count_lines is_unknown_line example_config = 0"
    "count_lines is_stereo_line example_config = 1"
    "count_lines is_mono_line example_config = 1"
    "count_lines is_imu_line example_config = 1"
    by (simp_all add: count_lines_def example_config_lines line_kind_defs)
qed

lemma two_pairs_config_facts:
  "fits_size_t two_pairs_config" "well_formed two_pairs_config"
  "count_lines is_stereo_line two_pairs_config = 2"
  "count_lines is_mono_line two_pairs_config = 0"
  "count_lines is_imu_line two_pairs_config = 1"
proof -
  show "fits_size_t two_pairs_config"
    by (simp add: fits_size_t_def two_pairs_config_def npos_def)
  show "well_formed two_pairs_config"
    by (simp add: well_formed_def two_pairs_config_lines example_lines_declarations)
  show "count_lines is_stereo_line two_pairs_config = 2"
    "count_lines is_mono_line two_pairs_config = 0"
    "count_lines is_imu_line two_pairs_config = 1"
    by (simp_all add: count_lines_def two_pairs_config_lines line_kind_defs)
qed

lemma duplicate_imu_config_facts:
  "count_lines is_imu_line duplicate_imu_config = 2"
  by (simp add: count_lines_def duplicate_imu_config_lines line_kind_defs)

theorem C1_config_acceptance_witness:
  "accepted (parseConfigFile (Some example_config))
   \<and> fits_size_t example_config \<and> well_formed example_config
   \<and> count_lines is_unknown_line example_config = 0
   \<and> count_lines is_stereo_line example_config = 1
   \<and> count_lines is_imu_line example_config = 1
   \<and> count_lines is_imu_line duplicate_imu_config = 2
   \<and> \<not> accepted (parseConfigFile (Some duplicate_imu_config))"
proof -
  have "accepted (parseConfigFile (Some example_config))"
    using C1_config_acceptance [of "Some example_config"] example_config_facts by simp
  moreover have "\<not> accepted (parseConfigFile (Some duplicate_imu_config))"
    using C1_config_acceptance [of "Some duplicate_imu_config"] duplicate_imu_config_facts
    by simp
  ultimately show ?thesis
    using example_config_facts duplicate_imu_config_facts by simp
qed

text \<open>
  C2. A file of well-formed lines with two \<^verbatim>\<open>stereo\<close> lines, one \<^verbatim>\<open>imu\<close> line and no
  \<^verbatim>\<open>mono\<close> line is accepted and \<^verbatim>\<open>main\<close> counts 4 cameras from it. For every accepted
  file the count, which is the sum of the sizes of the entries of \<^verbatim>\<open>cameraNs\<close>, is twice
  the number of \<^verbatim>\<open>stereo\<close> lines plus the number of \<^verbatim>\<open>mono\<close> lines.
\<close>

theorem C2_camera_count:
  "(parseConfigFile (Some content) = Inr (ns, imuTopic) \<longrightarrow>
      count_cameras ns = sum_list (map length ns)
      \<and> count_cameras ns
          = 2 * count_lines is_stereo_line content + count_lines is_mono_line content)
   \<and> (fits_size_t content \<and> well_formed content
        \<and> count_lines is_stereo_line content = 2 \<and> count_lines is_imu_line content = 1
        \<and> count_lines is_mono_line content = 0 \<longrightarrow>
      (\<exists>ns imuTopic. parseConfigFile (Some content) = Inr (ns, imuTopic)
         \<and> count_cameras ns = 4))"
proof (intro conjI impI)
  assume r: "parseConfigFile (Some content) = Inr (ns, imuTopic)"
  then have "accepted (parseConfigFile (Some content))"
    by (simp add: accepted_def)
  then obtain st :: parse_state where "parseConfigFile (Some content) = Inr (cameraNs st, imuTopicName st)"
    and "lines_summary (getlines content) init_parse_state st"
    using accepted_summary [of "Some content"] by auto
  then show "count_cameras ns
      = 2 * count_lines is_stereo_line content + count_lines is_mono_line content"
    using r by (simp add: lines_summary_def init_parse_state_def count_lines_def
        count_cameras_def)
  show "count_cameras ns = sum_list (map length ns)"
    by (simp add: count_cameras_concat length_concat)
next
  assume a: "fits_size_t content \<and> well_formed content
        \<and> count_lines is_stereo_line content = 2 \<and> count_lines is_imu_line content = 1
        \<and> count_lines is_mono_line content = 0"
  then obtain st :: parse_state
    where r: "parseConfigFile (Some content) = Inr (cameraNs st, imuTopicName st)"
    and sm: "lines_summary (getlines content) init_parse_state st"
    using well_formed_accepted [of content] by auto
  have "count_cameras (cameraNs st) = 4"
    using sm a by (simp add: lines_summary_def init_parse_state_def count_lines_def
        count_cameras_def)
  then show "\<exists>ns imuTopic. parseConfigFile (Some content) = Inr (ns, imuTopic)
         \<and> count_cameras ns = 4"
    using r by blast
qed

theorem C2_camera_count_witness:
  "fits_size_t two_pairs_config \<and> well_formed two_pairs_config
   \<and> count_lines is_stereo_line two_pairs_config = 2
   \<and> count_lines is_imu_line two_pairs_config = 1
   \<and> count_lines is_mono_line two_pairs_config = 0
   \<and> parseConfigFile (Some two_pairs_config)
       = Inr ([[''/cam0'', ''/cam1''], [''/cam2'', ''/cam3'']], ''/imu'')
   \<and> count_cameras [[''/cam0'', ''/cam1''], [''/cam2'', ''/cam3'']] = 4"
proof -
  have r: "parseConfigFile (Some two_pairs_config)
       = Inr ([[''/cam0'', ''/cam1''], [''/cam2'', ''/cam3'']], ''/imu'')"
    by (simp add: parser_eval two_pairs_config_lines)
  have "count_cameras [[''/cam0'', ''/cam1''], [''/cam2'', ''/cam3'']] = 4"
    using C2_camera_count [of two_pairs_config "[[''/cam0'', ''/cam1''], [''/cam2'', ''/cam3'']]"
        "''/imu''"] r two_pairs_config_facts
    by simp
  then show ?thesis
    using r two_pairs_config_facts by simp
qed

section \<open>Claims about a rejected configuration\<close>

lemma parser_log_errors: "set (parser_log err) \<subseteq> range LogError"
  by (cases err) auto

lemma main_rejected:
  assumes "\<not> accepted (parseConfigFile (configFile e))"
  shows "\<exists>err. parseConfigFile (configFile e) = Inl err
           \<and> main e = (Exit 1, if helpRequested e then []
                                else parser_log err @ [LogError ''Failed to read configuration file''])"
  using assms by (auto simp: main_def accepted_def split: sum.splits)

lemma main_rejected_effects:
  assumes "\<not> accepted (parseConfigFile (configFile e))"
  shows "fst (main e) = Exit 1" and "set (snd (main e)) \<subseteq> range LogError"
    and "WriteCalibration \<notin> set (snd (main e))" and "WritePoses \<notin> set (snd (main e))"
proof -
  obtain err where m: "main e = (Exit 1, if helpRequested e then []
                                else parser_log err @ [LogError ''Failed to read configuration file''])"
    using main_rejected [OF assms] by blast
  show "fst (main e) = Exit 1"
    by (simp add: m)
  show logs: "set (snd (main e)) \<subseteq> range LogError"
    using parser_log_errors [of err] by (auto simp: m)
  then show "WriteCalibration \<notin> set (snd (main e))" and "WritePoses \<notin> set (snd (main e))"
    by auto
qed

lemma unknown_line_rejected:
  assumes "1 \<le> count_lines is_unknown_line content"
  shows "\<not> accepted (parseConfigFile (Some content))"
proof
  assume "accepted (parseConfigFile (Some content))"
  then have "count_lines is_unknown_line content = 0"
    using accepted_counts [of "Some content"] by simp
  then show False
    using assms by simp
qed

lemma duplicate_imu_rejected:
  assumes "2 \<le> count_lines is_imu_line content"
  shows "\<not> accepted (parseConfigFile (Some content))"
proof
  assume "accepted (parseConfigFile (Some content))"
  then have "count_lines is_imu_line content = 1"
    using accepted_counts [of "Some content"] by simp
  then show False
    using assms by simp
qed

lemma parse_lines_duplicate:
  assumes "\<forall>l\<in>set ls. length l < npos \<and> (l = [] \<or> is_declaration l)"
    and "(if hasIMU st then 1 else 2) \<le> length (filter is_imu_line ls)"
  shows "parse_lines ls st = Inl DuplicateIMU"
  using assms
proof (induction ls arbitrary: st)
  case Nil
  then show ?case by (simp split: if_splits)
next
  case (Cons l ls)
  show ?case
  proof (cases "is_imu_line l \<and> hasIMU st")
    case True
    then have "parse_line l st = Inl DuplicateIMU"
      using parse_line_imu [of l st] by auto
    then show ?thesis by simp
  next
    case False
    have "\<exists>st1. parse_line l st = Inr st1"
    proof (cases "l = []")
      case True
      then show ?thesis by (simp add: parse_line_empty)
    next
      case ne: False
      then show ?thesis
        using declaration_parses [of l st] Cons.prems(1) False by auto
    qed
    then obtain st1 where one: "parse_line l st = Inr st1"
      by blast
    have "lines_summary [l] st st1"
      by (rule lines_summary_Cons [OF one lines_summary_Nil])
    then have h: "hasIMU st1 = (hasIMU st \<or> is_imu_line l)"
      by (simp add: lines_summary_def)
    have "(if hasIMU st1 then 1 else 2) \<le> length (filter is_imu_line ls)"
      using Cons.prems(2) h False by (auto split: if_splits)
    then have "parse_lines ls st1 = Inl DuplicateIMU"
      using Cons.IH [of st1] Cons.prems(1) by simp
    then show ?thesis
      using one by simp
  qed
qed

lemma well_formed_duplicate:
  assumes "fits_size_t content" and "well_formed content"
    and "2 \<le> count_lines is_imu_line content"
  shows "parseConfigFile (Some content) = Inl DuplicateIMU"
proof -
  have "\<forall>l\<in>set (getlines content). length l < npos \<and> (l = [] \<or> is_declaration l)"
    using assms(1,2) getlines_length [of _ content]
    by (fastforce simp: fits_size_t_def well_formed_def list_all_iff)
  moreover have "(if hasIMU init_parse_state then 1 else 2)
                   \<le> length (filter is_imu_line (getlines content))"
    using assms(3) by (simp add: count_lines_def init_parse_state_def)
  ultimately have "parse_lines (getlines content) init_parse_state = Inl DuplicateIMU"
    by (rule parse_lines_duplicate)
  then show ?thesis
    by (simp add: parseConfigFile_lines)
qed

lemma duplicate_imu_config_well_formed:
  "fits_size_t duplicate_imu_config" "well_formed duplicate_imu_config"
proof -
  show "fits_size_t duplicate_imu_config"
    by (simp add: fits_size_t_def duplicate_imu_config_def npos_def)
  show "well_formed duplicate_imu_config"
    by (simp add: well_formed_def duplicate_imu_config_lines is_declaration_def
        spec_declaration_def toupper_def upper_table_def)
qed

text \<open>
  C4, as stated, fails: with a second \<^verbatim>\<open>imu\<close> line \<^verbatim>\<open>parseConfigFile\<close> logs that the
  sensor is defined twice and returns false, and \<^verbatim>\<open>main\<close> logs that the file could not be
  read and returns 1 at once. The session does not continue.
\<close>

theorem C4_counterexample:
  "parseConfigFile (Some duplicate_imu_config) = Inl DuplicateIMU
   \<and> main (example_env (Some duplicate_imu_config) (Some []))
       = (Exit 1, [LogError ''A duplicate definition was found for the imu sensor.'',
                   LogError ''Failed to read configuration file''])"
proof -
  have r: "parseConfigFile (Some duplicate_imu_config) = Inl DuplicateIMU"
    by (simp add: parser_eval duplicate_imu_config_lines)
  then show ?thesis
    by (simp add: main_def example_env_def)
qed

text \<open>
  C4, amended. A duplicate IMU declaration is fatal: for every configuration file with
  two or more \<^verbatim>\<open>imu\<close> lines \<^verbatim>\<open>parseConfigFile\<close> returns false, and \<^verbatim>\<open>main\<close> returns
  exit code 1 having written nothing but error lines to the log. When every line of the
  file that is not empty has one of the recognized forms, the failure is that the sensor
  is defined twice: \<^verbatim>\<open>parseConfigFile\<close> logs it and returns false, and the log of
  \<^verbatim>\<open>main\<close> is that line followed by the line that the file could not be read.
\<close>

theorem C4_duplicate_imu_fatal:
  assumes "configFile e = Some content" and "2 \<le> count_lines is_imu_line content"
  shows "\<not> accepted (parseConfigFile (configFile e)) \<and> fst (main e) = Exit 1
         \<and> set (snd (main e)) \<subseteq> range LogError
         \<and> WriteCalibration \<notin> set (snd (main e)) \<and> WritePoses \<notin> set (snd (main e))
         \<and> (fits_size_t content \<and> well_formed content \<longrightarrow>
              parseConfigFile (configFile e) = Inl DuplicateIMU
              \<and> (\<not> helpRequested e \<longrightarrow>
                   main e = (Exit 1,
                     [LogError ''A duplicate definition was found for the imu sensor.'',
                      LogError ''Failed to read configuration file''])))"
proof -
  have rej: "\<not> accepted (parseConfigFile (configFile e))"
    using duplicate_imu_rejected [OF assms(2)] assms(1) by simp
  have dup: "parseConfigFile (configFile e) = Inl DuplicateIMU
              \<and> (\<not> helpRequested e \<longrightarrow>
                   main e = (Exit 1,
                     [LogError ''A duplicate definition was found for the imu sensor.'',
                      LogError ''Failed to read configuration file'']))"
    if wf: "fits_size_t content \<and> well_formed content"
  proof -
    have "parseConfigFile (configFile e) = Inl DuplicateIMU"
      using well_formed_duplicate [of content] wf assms by simp
    then show ?thesis
      by (simp add: main_def)
  qed
  show ?thesis
    using rej main_rejected_effects [OF rej] dup by blast
qed

theorem C4_duplicate_imu_fatal_witness:
  "configFile (example_env (Some duplicate_imu_config) (Some [])) = Some duplicate_imu_config
   \<and> 2 \<le> count_lines is_imu_line duplicate_imu_config
   \<and> fits_size_t duplicate_imu_config \<and> well_formed duplicate_imu_config
   \<and> \<not> helpRequested (example_env (Some duplicate_imu_config) (Some []))
   \<and> \<not> accepted (parseConfigFile (Some duplicate_imu_config))
   \<and> parseConfigFile (Some duplicate_imu_config) = Inl DuplicateIMU
   \<and> main (example_env (Some duplicate_imu_config) (Some []))
       = (Exit 1, [LogError ''A duplicate definition was found for the imu sensor.'',
                   LogError ''Failed to read configuration file''])"
proof -
  have c: "configFile (example_env (Some duplicate_imu_config) (Some [])) = Some duplicate_imu_config"
    by (simp add: example_env_def)
  have n: "2 \<le> count_lines is_imu_line duplicate_imu_config"
    by (simp add: duplicate_imu_config_facts)
  have h: "\<not> helpRequested (example_env (Some duplicate_imu_config) (Some []))"
    by (simp add: example_env_def)
  note wf = duplicate_imu_config_well_formed
  have "\<not> accepted (parseConfigFile (Some duplicate_imu_config))"
    using C4_duplicate_imu_fatal [OF c n] c by simp
  moreover have "parseConfigFile (Some duplicate_imu_config) = Inl DuplicateIMU"
    using C4_duplicate_imu_fatal [OF c n] c wf by simp
  moreover have "main (example_env (Some duplicate_imu_config) (Some []))
       = (Exit 1, [LogError ''A duplicate definition was found for the imu sensor.'',
                   LogError ''Failed to read configuration file''])"
    using C4_duplicate_imu_fatal [OF c n] wf h by blast
  ultimately show ?thesis
    using c n h wf by blast
qed

text \<open>
  C5. When the configuration file cannot be opened, or has a line that is not empty and
  whose first token is none of \<^verbatim>\<open>stereo\<close>, \<^verbatim>\<open>mono\<close> and \<^verbatim>\<open>imu\<close>, \<^verbatim>\<open>parseConfigFile\<close>
  returns false and \<^verbatim>\<open>main\<close> returns exit code 1 having written neither the calibration
  files nor the poses: it has done nothing but write error lines to the log, the line of
  the parser, when it has one, and then the line that the file could not be read.
\<close>

theorem C5_bad_config_aborts:
  assumes "configFile e = None
           \<or> (\<exists>content. configFile e = Some content \<and> 1 \<le> count_lines is_unknown_line content)"
  shows "\<not> accepted (parseConfigFile (configFile e)) \<and> fst (main e) = Exit 1
         \<and> set (snd (main e)) \<subseteq> range LogError
         \<and> (\<exists>err. parseConfigFile (configFile e) = Inl err
               \<and> snd (main e) = (if helpRequested e then []
                    else parser_log err @ [LogError ''Failed to read configuration file'']))
         \<and> (configFile e = None \<longrightarrow>
               set (snd (main e)) \<subseteq> {LogError ''Failed to read configuration file''})
         \<and> WriteCalibration \<notin> set (snd (main e)) \<and> WritePoses \<notin> set (snd (main e))"
proof -
  have rej: "\<not> accepted (parseConfigFile (configFile e))"
    using assms unknown_line_rejected by (auto simp: parseConfigFile_def accepted_def)
  obtain err where err: "parseConfigFile (configFile e) = Inl err"
    and m: "main e = (Exit 1, if helpRequested e then []
                              else parser_log err @ [LogError ''Failed to read configuration file''])"
    using main_rejected [OF rej] by blast
  have "set (snd (main e)) \<subseteq> {LogError ''Failed to read configuration file''}"
    if "configFile e = None"
    using that err m by (auto simp: parseConfigFile_def)
  then show ?thesis
    using rej main_rejected_effects [OF rej] err m by auto
qed

theorem C5_bad_config_aborts_witness:
  "configFile (example_env None (Some [])) = None
   \<and> main (example_env None (Some [])) = (Exit 1, [LogError ''Failed to read configuration file''])
   \<and> count_lines is_unknown_line ''stereo /cam0 /cam1\<newline>lidar /scan\<newline>imu /imu'' = 1
   \<and> \<not> accepted (parseConfigFile (Some ''stereo /cam0 /cam1\<newline>lidar /scan\<newline>imu /imu''))
   \<and> fst (main (example_env (Some ''stereo /cam0 /cam1\<newline>lidar /scan\<newline>imu /imu'') (Some [])))
       = Exit 1
   \<and> main (example_env (Some ''stereo /cam0 /cam1\<newline>lidar /scan\<newline>imu /imu'') (Some []))
       = (Exit 1, [LogError ''Unknown sensor type: lidar'',
                   LogError ''Failed to read configuration file''])"
proof -
  let ?bad = "''stereo /cam0 /cam1\<newline>lidar /scan\<newline>imu /imu''"
  have l: "getlines ?bad = [''stereo /cam0 /cam1'', ''lidar /scan'', ''imu /imu'']"
    by (simp add: newline_def)
  have n: "count_lines is_unknown_line ?bad = 1"
    unfolding count_lines_def l by (simp add: line_kind_defs)
  have c0: "configFile (example_env None (Some [])) = None"
    and c1: "configFile (example_env (Some ?bad) (Some [])) = Some ?bad"
    by (simp_all add: example_env_def)
  have p: "parseConfigFile (Some ?bad) = Inl (UnknownSensor ''lidar'')"
    by (simp add: parser_eval l)
  have "main (example_env None (Some [])) = (Exit 1, [LogError ''Failed to read configuration file''])"
    by (simp add: main_def example_env_def parseConfigFile_def)
  moreover have "\<not> accepted (parseConfigFile (Some ?bad)) \<and> fst (main (example_env (Some ?bad) (Some []))) = Exit 1"
    using C5_bad_config_aborts [of "example_env (Some ?bad) (Some [])"] c1 n by simp
  moreover have "main (example_env (Some ?bad) (Some []))
       = (Exit 1, [LogError ''Unknown sensor type: lidar'',
                   LogError ''Failed to read configuration file''])"
    using p by (simp add: main_def example_env_def)
  ultimately show ?thesis
    using c0 n by simp
qed

section \<open>The callback\<close>

lemma find_stamp_None: "find_stamp xs stamp = None \<longleftrightarrow> \<not> list_ex (\<lambda>s. imu_stamp s = stamp) xs"
  by (induction xs) auto

lemma find_stamp_Some:
  "find_stamp xs stamp = Some s \<Longrightarrow> s \<in> set xs \<and> imu_stamp s = stamp"
  by (induction xs) (auto split: if_splits)

lemma convert_images_Inr:
  "list_all (converts toCv) ms \<Longrightarrow> convert_images toCv ms = Inr (map (\<lambda>m. projr (toCv m)) ms)"
  by (induction ms) (auto simp: converts_def split: sum.splits)

lemma convert_images_Inl:
  "\<not> list_all (converts toCv) ms \<Longrightarrow> \<exists>e. convert_images toCv ms = Inl e"
  by (induction ms) (auto simp: converts_def split: sum.splits)

text \<open>
  C6. When the buffer holds no sample with the timestamp of the images, or one of the four
  images does not convert, the callback does not call \<^verbatim>\<open>processFrames\<close>: all it does is
  write one line to the log. It calls \<^verbatim>\<open>processFrames\<close> exactly when a sample with that
  timestamp exists and all four images convert, and then with that timestamp, the four
  converted images and a buffered sample of that timestamp.
\<close>

theorem C6_callback_skips_frame:
  "(\<not> matching_sample buf (image_stamp m0) \<longrightarrow>
      voCallback toCv m0 m1 m2 m3 buf = [Warn ''No IMU message with matching timestamp.''])
   \<and> (matching_sample buf (image_stamp m0) \<and> \<not> list_all (converts toCv) [m0, m1, m2, m3] \<longrightarrow>
      (\<exists>e. voCallback toCv m0 m1 m2 m3 buf = [Error e]))
   \<and> (list_ex is_ProcessFrames (voCallback toCv m0 m1 m2 m3 buf) \<longleftrightarrow>
        matching_sample buf (image_stamp m0) \<and> list_all (converts toCv) [m0, m1, m2, m3])
   \<and> (matching_sample buf (image_stamp m0) \<and> list_all (converts toCv) [m0, m1, m2, m3] \<longrightarrow>
      (\<exists>imuMsg. imuMsg \<in> set buf \<and> imu_stamp imuMsg = image_stamp m0
         \<and> voCallback toCv m0 m1 m2 m3 buf
             = [ProcessFrames (image_stamp m0) (map (\<lambda>m. projr (toCv m)) [m0, m1, m2, m3])
                  imuMsg]))"
proof -
  let ?stamp = "image_stamp m0" and ?ms = "[m0, m1, m2, m3]"
  have none: "voCallback toCv m0 m1 m2 m3 buf = [Warn ''No IMU message with matching timestamp.'']"
    if "\<not> matching_sample buf ?stamp"
  proof -
    have "find_stamp (rev buf) ?stamp = None"
      using that by (simp add: find_stamp_None matching_sample_def list_ex_iff)
    then show ?thesis
      by (simp add: voCallback_def)
  qed
  have fail: "\<exists>e. voCallback toCv m0 m1 m2 m3 buf = [Error e]"
    if hit: "matching_sample buf ?stamp" and bad: "\<not> list_all (converts toCv) ?ms"
  proof -
    have "find_stamp (rev buf) ?stamp \<noteq> None"
      using hit by (simp add: find_stamp_None matching_sample_def list_ex_iff)
    then obtain s where "find_stamp (rev buf) ?stamp = Some s"
      by blast
    moreover obtain e where "convert_images toCv ?ms = Inl e"
      using convert_images_Inl [OF bad] by blast
    ultimately show ?thesis
      by (simp add: voCallback_def)
  qed
  have ok: "\<exists>imuMsg. imuMsg \<in> set buf \<and> imu_stamp imuMsg = ?stamp
         \<and> voCallback toCv m0 m1 m2 m3 buf
             = [ProcessFrames ?stamp (map (\<lambda>m. projr (toCv m)) ?ms) imuMsg]"
    if hit: "matching_sample buf ?stamp" and good: "list_all (converts toCv) ?ms"
  proof -
    have "find_stamp (rev buf) ?stamp \<noteq> None"
      using hit by (simp add: find_stamp_None matching_sample_def list_ex_iff)
    then obtain s where s: "find_stamp (rev buf) ?stamp = Some s"
      by blast
    then have "s \<in> set buf" "imu_stamp s = ?stamp"
      using find_stamp_Some [OF s] by simp_all
    moreover have "voCallback toCv m0 m1 m2 m3 buf
             = [ProcessFrames ?stamp (map (\<lambda>m. projr (toCv m)) ?ms) s]"
      using s convert_images_Inr [OF good] by (simp add: voCallback_def)
    ultimately show ?thesis
      by blast
  qed
  have iff: "list_ex is_ProcessFrames (voCallback toCv m0 m1 m2 m3 buf) \<longleftrightarrow>
        matching_sample buf ?stamp \<and> list_all (converts toCv) ?ms"
  proof (cases "matching_sample buf ?stamp")
    case False
    then show ?thesis
      using none by simp
  next
    case True
    show ?thesis
    proof (cases "list_all (converts toCv) ?ms")
      case False
      then show ?thesis
        using fail [OF True] True by auto
    next
      case conv: True
      then show ?thesis
        using ok [OF True] True by auto
    qed
  qed
  show ?thesis
    using none fail ok iff by blast
qed


theorem C6_callback_skips_frame_witness:
  "\<not> matching_sample [\<lparr>imu_stamp = 7, imu_reading = 1\<rparr>] 8
   \<and> voCallback example_toCv \<lparr>image_stamp = 8, image_data = 1\<rparr> \<lparr>image_stamp = 8, image_data = 2\<rparr>
        \<lparr>image_stamp = 8, image_data = 3\<rparr> \<lparr>image_stamp = 8, image_data = 4\<rparr>
        [\<lparr>imu_stamp = 7, imu_reading = 1\<rparr>]
       = [Warn ''No IMU message with matching timestamp.'']
   \<and> matching_sample [\<lparr>imu_stamp = 7, imu_reading = 1\<rparr>, \<lparr>imu_stamp = 8, imu_reading = 2\<rparr>] 8
   \<and> list_all (converts example_toCv) [\<lparr>image_stamp = 8, image_data = 1\<rparr>,
        \<lparr>image_stamp = 8, image_data = 2\<rparr>, \<lparr>image_stamp = 8, image_data = 3\<rparr>,
        \<lparr>image_stamp = 8, image_data = 4\<rparr>]
   \<and> list_ex is_ProcessFrames
        (voCallback example_toCv \<lparr>image_stamp = 8, image_data = 1\<rparr>
           \<lparr>image_stamp = 8, image_data = 2\<rparr> \<lparr>image_stamp = 8, image_data = 3\<rparr>
           \<lparr>image_stamp = 8, image_data = 4\<rparr>
           [\<lparr>imu_stamp = 7, imu_reading = 1\<rparr>, \<lparr>imu_stamp = 8, imu_reading = 2\<rparr>])
   \<and> \<not> list_all (converts example_toCv) [\<lparr>image_stamp = 8, image_data = 1\<rparr>,
        \<lparr>image_stamp = 8, image_data = 0\<rparr>, \<lparr>image_stamp = 8, image_data = 3\<rparr>,
        \<lparr>image_stamp = 8, image_data = 4\<rparr>]
   \<and> \<not> list_ex is_ProcessFrames
        (voCallback example_toCv \<lparr>image_stamp = 8, image_data = 1\<rparr>
           \<lparr>image_stamp = 8, image_data = 0\<rparr> \<lparr>image_stamp = 8, image_data = 3\<rparr>
           \<lparr>image_stamp = 8, image_data = 4\<rparr>
           [\<lparr>imu_stamp = 7, imu_reading = 1\<rparr>, \<lparr>imu_stamp = 8, imu_reading = 2\<rparr>])"
  using C6_callback_skips_frame [of "[\<lparr>imu_stamp = 7, imu_reading = 1\<rparr>]"
      "\<lparr>image_stamp = 8, image_data = 1\<rparr>" example_toCv "\<lparr>image_stamp = 8, image_data = 2\<rparr>"
      "\<lparr>image_stamp = 8, image_data = 3\<rparr>" "\<lparr>image_stamp = 8, image_data = 4\<rparr>"]
    C6_callback_skips_frame [of "[\<lparr>imu_stamp = 7, imu_reading = 1\<rparr>, \<lparr>imu_stamp = 8, imu_reading = 2\<rparr>]"
      "\<lparr>image_stamp = 8, image_data = 1\<rparr>" example_toCv "\<lparr>image_stamp = 8, image_data = 2\<rparr>"
      "\<lparr>image_stamp = 8, image_data = 3\<rparr>" "\<lparr>image_stamp = 8, image_data = 4\<rparr>"]
    C6_callback_skips_frame [of "[\<lparr>imu_stamp = 7, imu_reading = 1\<rparr>, \<lparr>imu_stamp = 8, imu_reading = 2\<rparr>]"
      "\<lparr>image_stamp = 8, image_data = 1\<rparr>" example_toCv "\<lparr>image_stamp = 8, image_data = 0\<rparr>"
      "\<lparr>image_stamp = 8, image_data = 3\<rparr>" "\<lparr>image_stamp = 8, image_data = 4\<rparr>"]
  by (simp add: matching_sample_def converts_def example_toCv_def)

section \<open>The buffer of inertial samples\<close>

lemma trim_buffer_drop: "trim_buffer buf = drop (length buf - 50) buf"
proof (induction buf rule: trim_buffer.induct)
  case (1 buf)
  show ?case
  proof (cases "50 < length buf")
    case True
    then have "trim_buffer buf = drop (length (tl buf) - 50) (tl buf)"
      using 1 by (subst trim_buffer.simps) simp
    also have "\<dots> = drop (Suc (length (tl buf) - 50)) buf"
      by (simp add: drop_Suc)
    also have "Suc (length (tl buf) - 50) = length buf - 50"
      using True by simp
    finally show ?thesis .
  next
    case False
    then show ?thesis
      by (subst trim_buffer.simps) simp
  qed
qed

lemma trim_buffer_length: "length (trim_buffer buf) \<le> 50"
  by (simp add: trim_buffer_drop)

lemma scan_camera_info_buffer:
  "imuBuffer (flow_state (scan_camera_info indices m names st)) = imuBuffer st"
  by (induction indices) (auto split: option.splits)

lemma scan_images_buffer:
  "imuBuffer (flow_state (scan_images indices m names nCams st)) = imuBuffer st"
  by (induction indices arbitrary: st) (auto split: option.splits)

lemma buffer_imu_bound:
  "length (imuBuffer st) \<le> 50 \<Longrightarrow> length (imuBuffer (buffer_imu m imuTopic st)) \<le> 50"
  by (simp add: buffer_imu_def trim_buffer_length split: option.splits)

lemma replay_message_bound:
  assumes "length (imuBuffer st) \<le> 50"
  shows "length (imuBuffer (flow_state (replay_message e ns imuTopic m st))) \<le> 50"
proof -
  have a: "length (imuBuffer (flow_state
             (scan_camera_info [0 ..< N_CAMERAS] m (camInfoTopicNames ns) st))) \<le> 50"
    using assms by (simp add: scan_camera_info_buffer)
  have b: "length (imuBuffer (flow_state
             (scan_images [0 ..< N_CAMERAS] m (camImageTopicNames ns) (count_cameras ns) st))) \<le> 50"
    using assms by (simp add: scan_images_buffer)
  show ?thesis
    using a b assms
    by (auto simp: replay_message_def buffer_imu_bound split: flow.splits option.splits)
qed

lemma replay_bound:
  "length (imuBuffer st) \<le> 50 \<Longrightarrow>
     length (imuBuffer (flow_state (replay e ns imuTopic msgs st))) \<le> 50"
proof (induction msgs arbitrary: st)
  case Nil
  then show ?case by simp
next
  case (Cons m msgs)
  let ?st0 = "st\<lparr>okCalls := okCalls st + 1\<rparr>"
  have st0: "length (imuBuffer ?st0) \<le> 50"
    using Cons.prems by simp
  show ?case
  proof (cases "rosOk e (okCalls st)")
    case False
    then show ?thesis
      using st0 by (simp add: Let_def)
  next
    case True
    show ?thesis
    proof (cases "replay_message e ns imuTopic m ?st0")
      case (Next st1)
      then have "length (imuBuffer st1) \<le> 50"
        using replay_message_bound [OF st0, of e ns imuTopic m] by simp
      then show ?thesis
        using Cons.IH [of st1] True Next by (simp add: Let_def)
    next
      case (Break st1)
      then show ?thesis
        using replay_message_bound [OF st0, of e ns imuTopic m] True by (simp add: Let_def)
    next
      case (Abort out st1)
      then show ?thesis
        using replay_message_bound [OF st0, of e ns imuTopic m] True by (simp add: Let_def)
    qed
  qed
qed

lemma length_camInfoTopicNames: "length (camInfoTopicNames ns) = count_cameras ns"
  by (simp add: camInfoTopicNames_def count_cameras_concat length_concat comp_def)

lemma length_camImageTopicNames: "length (camImageTopicNames ns) = count_cameras ns"
  by (simp add: camImageTopicNames_def count_cameras_concat length_concat comp_def)

lemmas replay_eval =
  main_def example_env_def always_ok_def count_cameras_def camInfoTopicNames_def
  camImageTopicNames_def sync_subscribers_def initial_replay_state_def N_CAMERAS_def
  replay_message_def count_init_def instantiate_camera_info_def instantiate_image_def
  instantiate_imu_def buffer_imu_def finish_def four_camera_bag_def example_imu_message_def
  trim_buffer_drop Let_def upt_rec eval_nat_numeral

subsection \<open>What the replay loop stores\<close>

lemma trim_buffer_append: "trim_buffer (trim_buffer xs @ ys) = trim_buffer (xs @ ys)"
proof (cases "length xs \<le> 50")
  case True
  then show ?thesis
    by (simp add: trim_buffer_drop)
next
  case False
  let ?k = "length xs - 50"
  have k: "?k \<le> length xs" and len: "length (drop ?k xs) = 50"
    using False by simp_all
  have "trim_buffer (trim_buffer xs @ ys) = drop (length ys) (drop ?k xs @ ys)"
    using len by (simp add: trim_buffer_drop)
  also have "drop ?k xs @ ys = drop ?k (xs @ ys)"
    using k by simp
  also have "drop (length ys) (drop ?k (xs @ ys)) = drop (length ys + ?k) (xs @ ys)"
    by (rule drop_drop)
  also have "length ys + ?k = length (xs @ ys) - 50"
    using False by simp
  finally show ?thesis
    by (simp add: trim_buffer_drop)
qed

lemma scan_images_Next:
  assumes "\<forall>i\<in>set indices. i < length names \<and> i < nCams"
  shows "\<exists>st1. scan_images indices m names nCams st = Next st1
           \<and> imuBuffer st1 = imuBuffer st \<and> init st1 = init st \<and> okCalls st1 = okCalls st"
  using assms
proof (induction indices arbitrary: st)
  case Nil
  then show ?case by simp
next
  case (Cons i rest)
  have ih: "\<exists>st1. scan_images rest m names nCams s = Next st1
           \<and> imuBuffer st1 = imuBuffer s \<and> init st1 = init s \<and> okCalls st1 = okCalls s" for s
    using Cons.IH [of s] Cons.prems by simp
  have i: "i < length names" "i < nCams"
    using Cons.prems by simp_all
  show ?case
  proof (cases "msg_topic m = names ! i")
    case False
    then show ?thesis
      using i ih [of st] by simp
  next
    case True
    show ?thesis
    proof (cases "instantiate_image m")
      case None
      then show ?thesis
        using i True ih [of "st\<lparr>effects := effects st @ [Publish i None]\<rparr>"] by simp
    next
      case (Some img)
      then show ?thesis
        using i True
          ih [of "st\<lparr>effects := effects st @ [NewMessage i img, Publish i (Some img)]\<rparr>"]
        by simp
    qed
  qed
qed

lemma image_phase_init: "init st' = init st \<Longrightarrow> image_phase e ns st' = image_phase e ns st"
  by (simp add: image_phase_def count_init_def)

lemma replay_message_imu:
  assumes "image_phase e ns st"
  shows "\<exists>st'. replay_message e ns imuTopic (imu_message imuTopic imu) st = Next st'
           \<and> imuBuffer st' = trim_buffer (imuBuffer st @ [imu])
           \<and> init st' = init st \<and> okCalls st' = okCalls st"
proof -
  let ?m = "imu_message imuTopic imu"
  have "\<forall>i\<in>set [0 ..< N_CAMERAS]. i < length (camImageTopicNames ns) \<and> i < count_cameras ns"
    using assms by (simp add: image_phase_def length_camImageTopicNames)
  then obtain st1 where scan:
    "scan_images [0 ..< N_CAMERAS] ?m (camImageTopicNames ns) (count_cameras ns) st = Next st1"
    and same: "imuBuffer st1 = imuBuffer st" "init st1 = init st" "okCalls st1 = okCalls st"
    using scan_images_Next [of "[0 ..< N_CAMERAS]" "camImageTopicNames ns" "count_cameras ns" ?m st]
    by blast
  have "replay_message e ns imuTopic ?m st = Next (buffer_imu ?m imuTopic st1)"
    using assms scan by (simp add: replay_message_def image_phase_def)
  moreover have "imuBuffer (buffer_imu ?m imuTopic st1) = trim_buffer (imuBuffer st @ [imu])"
    "init (buffer_imu ?m imuTopic st1) = init st"
    "okCalls (buffer_imu ?m imuTopic st1) = okCalls st"
    using same by (simp_all add: buffer_imu_def imu_message_def instantiate_imu_def)
  ultimately show ?thesis
    by blast
qed

lemma buffer_imu_cases:
  "imuBuffer (buffer_imu m imuTopic st) = imuBuffer st
   \<or> (msg_topic m = imuTopic
       \<and> (\<exists>imu. msg_payload m = ImuData imu
             \<and> imuBuffer (buffer_imu m imuTopic st) = trim_buffer (imuBuffer st @ [imu])))"
  by (cases "msg_payload m") (simp_all add: buffer_imu_def instantiate_imu_def)

lemma replay_message_buffer:
  "imuBuffer (flow_state (replay_message e ns imuTopic m st)) = imuBuffer st
   \<or> (msg_topic m = imuTopic
       \<and> (\<exists>imu. msg_payload m = ImuData imu
             \<and> imuBuffer (flow_state (replay_message e ns imuTopic m st))
                 = trim_buffer (imuBuffer st @ [imu])))"
proof (cases "count_init st < N_CAMERAS")
  case True
  have "imuBuffer (flow_state
          (scan_camera_info [0 ..< N_CAMERAS] m (camInfoTopicNames ns) st)) = imuBuffer st"
    by (rule scan_camera_info_buffer)
  then have "imuBuffer (flow_state (replay_message e ns imuTopic m st)) = imuBuffer st"
    using True by (auto simp: replay_message_def split: flow.splits option.splits)
  then show ?thesis
    by simp
next
  case False
  show ?thesis
  proof (cases "readIntermediateData e")
    case True
    then show ?thesis
      using False by (simp add: replay_message_def)
  next
    case live: False
    let ?scan = "scan_images [0 ..< N_CAMERAS] m (camImageTopicNames ns) (count_cameras ns) st"
    have same: "imuBuffer (flow_state ?scan) = imuBuffer st"
      by (rule scan_images_buffer)
    show ?thesis
    proof (cases ?scan)
      case (Next st1)
      then have "replay_message e ns imuTopic m st = Next (buffer_imu m imuTopic st1)"
        using False live by (simp add: replay_message_def)
      moreover have "imuBuffer st1 = imuBuffer st"
        using same Next by simp
      ultimately show ?thesis
        using buffer_imu_cases [of m imuTopic st1] by simp
    next
      case (Break st1)
      then show ?thesis
        using False live same by (simp add: replay_message_def)
    next
      case (Abort out st1)
      then show ?thesis
        using False live same by (simp add: replay_message_def)
    qed
  qed
qed

lemma replay_imu_run:
  assumes "\<forall>k. rosOk e k"
  shows "image_phase e ns st \<Longrightarrow> length (imuBuffer st) \<le> 50 \<Longrightarrow>
         \<exists>st'. replay e ns imuTopic (map (imu_message imuTopic) samples) st = Next st'
           \<and> imuBuffer st' = trim_buffer (imuBuffer st @ samples)"
proof (induction samples arbitrary: st)
  case Nil
  then show ?case
    by (simp add: trim_buffer_drop)
next
  case (Cons imu samples)
  let ?st0 = "st\<lparr>okCalls := okCalls st + 1\<rparr>"
  have ph0: "image_phase e ns ?st0"
    using Cons.prems(1) image_phase_init [of ?st0 st e ns] by simp
  obtain st1 where one: "replay_message e ns imuTopic (imu_message imuTopic imu) ?st0 = Next st1"
    and buf: "imuBuffer st1 = trim_buffer (imuBuffer st @ [imu])"
    and ini: "init st1 = init ?st0"
    using replay_message_imu [OF ph0, of imuTopic imu] by auto
  have ph1: "image_phase e ns st1"
    using ph0 image_phase_init [OF ini, of e ns] by simp
  have len: "length (imuBuffer st1) \<le> 50"
    by (simp add: buf trim_buffer_length)
  obtain st' where run: "replay e ns imuTopic (map (imu_message imuTopic) samples) st1 = Next st'"
    and fin: "imuBuffer st' = trim_buffer (imuBuffer st1 @ samples)"
    using Cons.IH [OF ph1 len] by blast
  have "imuBuffer st' = trim_buffer (imuBuffer st @ imu # samples)"
    using fin buf trim_buffer_append [of "imuBuffer st @ [imu]" samples] by simp
  moreover have "replay e ns imuTopic (map (imu_message imuTopic) (imu # samples)) st = Next st'"
    using assms one run by (simp add: Let_def)
  ultimately show ?case
    by blast
qed

text \<open>
  C7. The buffer of inertial samples is bounded with the oldest dropped first. Appending
  a sample leaves the last 50 of the old samples and the new one, in their order, so a
  buffer in timestamp order stays in timestamp order. The replay loop stores the samples
  in this way: once the four cameras are initialised, a message on the IMU topic that
  holds a sample leaves in the buffer the last 50 of the old samples and the new one; a
  run of such messages leaves the last 50 of all of them; no message changes the buffer
  in another way; and after any messages of the replay loop, from the empty buffer it
  starts with, the buffer holds at most 50 samples.
\<close>

theorem C7_imu_buffer_bounded:
  "length (imuBuffer (flow_state (replay e ns imuTopic msgs (initial_replay_state nCams)))) \<le> 50
   \<and> (length (imuBuffer st) \<le> 50 \<longrightarrow>
        length (imuBuffer (flow_state (replay_message e ns imuTopic m st))) \<le> 50)
   \<and> (msg_topic m = imuTopic \<and> msg_payload m = ImuData imu \<longrightarrow>
        imuBuffer (buffer_imu m imuTopic st) = trim_buffer (imuBuffer st @ [imu]))
   \<and> trim_buffer (buf @ [imu]) = drop (length (buf @ [imu]) - 50) (buf @ [imu])
   \<and> length (trim_buffer (buf @ [imu])) = min 50 (length buf + 1)
   \<and> (sorted (map imu_stamp (buf @ [imu])) \<longrightarrow>
        sorted (map imu_stamp (trim_buffer (buf @ [imu]))))
   \<and> (image_phase e ns st \<longrightarrow>
        (\<exists>st'. replay_message e ns imuTopic (imu_message imuTopic imu) st = Next st'
           \<and> imuBuffer st'
               = drop (length (imuBuffer st @ [imu]) - 50) (imuBuffer st @ [imu])))
   \<and> (image_phase e ns st \<and> (\<forall>k. rosOk e k) \<and> length (imuBuffer st) \<le> 50 \<longrightarrow>
        (\<exists>st'. replay e ns imuTopic (map (imu_message imuTopic) samples) st = Next st'
           \<and> imuBuffer st'
               = drop (length (imuBuffer st @ samples) - 50) (imuBuffer st @ samples)))
   \<and> (imuBuffer (flow_state (replay_message e ns imuTopic m st)) = imuBuffer st
       \<or> (msg_topic m = imuTopic
           \<and> (\<exists>s. msg_payload m = ImuData s
                 \<and> imuBuffer (flow_state (replay_message e ns imuTopic m st))
                     = trim_buffer (imuBuffer st @ [s]))))"
proof (intro conjI impI)
  show "length (imuBuffer (flow_state (replay e ns imuTopic msgs (initial_replay_state nCams)))) \<le> 50"
    by (rule replay_bound) (simp add: initial_replay_state_def)
next
  assume "length (imuBuffer st) \<le> 50"
  then show "length (imuBuffer (flow_state (replay_message e ns imuTopic m st))) \<le> 50"
    by (rule replay_message_bound)
next
  assume "msg_topic m = imuTopic \<and> msg_payload m = ImuData imu"
  then show "imuBuffer (buffer_imu m imuTopic st) = trim_buffer (imuBuffer st @ [imu])"
    by (simp add: buffer_imu_def instantiate_imu_def)
next
  show "trim_buffer (buf @ [imu]) = drop (length (buf @ [imu]) - 50) (buf @ [imu])"
    by (rule trim_buffer_drop)
next
  show "length (trim_buffer (buf @ [imu])) = min 50 (length buf + 1)"
    by (simp add: trim_buffer_drop)
next
  assume "sorted (map imu_stamp (buf @ [imu]))"
  then have "sorted (drop (length (buf @ [imu]) - 50) (map imu_stamp (buf @ [imu])))"
    by (rule sorted_wrt_drop)
  then show "sorted (map imu_stamp (trim_buffer (buf @ [imu])))"
    by (simp add: trim_buffer_drop drop_map)
next
  assume "image_phase e ns st"
  then show "\<exists>st'. replay_message e ns imuTopic (imu_message imuTopic imu) st = Next st'
           \<and> imuBuffer st'
               = drop (length (imuBuffer st @ [imu]) - 50) (imuBuffer st @ [imu])"
    using replay_message_imu [of e ns st imuTopic imu]
      trim_buffer_drop [of "imuBuffer st @ [imu]"] by auto
next
  assume "image_phase e ns st \<and> (\<forall>k. rosOk e k) \<and> length (imuBuffer st) \<le> 50"
  then show "\<exists>st'. replay e ns imuTopic (map (imu_message imuTopic) samples) st = Next st'
           \<and> imuBuffer st'
               = drop (length (imuBuffer st @ samples) - 50) (imuBuffer st @ samples)"
    using replay_imu_run [of e ns st imuTopic samples]
      trim_buffer_drop [of "imuBuffer st @ samples"] by auto
next
  show "imuBuffer (flow_state (replay_message e ns imuTopic m st)) = imuBuffer st
       \<or> (msg_topic m = imuTopic
           \<and> (\<exists>s. msg_payload m = ImuData s
                 \<and> imuBuffer (flow_state (replay_message e ns imuTopic m st))
                     = trim_buffer (imuBuffer st @ [s])))"
    by (rule replay_message_buffer)
qed

lemma calibrated_state_facts:
  "image_phase (example_env None None) example_rig calibrated_state"
  "\<forall>k. rosOk (example_env None None) k"
  "length (imuBuffer calibrated_state) \<le> 50"
  "imuBuffer calibrated_state = replicate 50 (example_imu 7)"
  by (simp_all add: image_phase_def count_init_def calibrated_state_def N_CAMERAS_def
      example_env_def always_ok_def example_rig_def count_cameras_def eval_nat_numeral)

theorem C7_imu_buffer_bounded_witness:
  "length (imuBuffer (initial_replay_state 4)) \<le> 50
   \<and> msg_topic (example_imu_message 9) = ''/imu''
   \<and> msg_payload (example_imu_message 9) = ImuData (example_imu 9)
   \<and> imuBuffer (buffer_imu (example_imu_message 9) ''/imu'' (initial_replay_state 4))
       = trim_buffer [example_imu 9]
   \<and> sorted (map imu_stamp (replicate 50 (example_imu 7) @ [example_imu 9]))
   \<and> trim_buffer (replicate 50 (example_imu 7) @ [example_imu 9])
       = replicate 49 (example_imu 7) @ [example_imu 9]
   \<and> sorted (map imu_stamp (trim_buffer (replicate 50 (example_imu 7) @ [example_imu 9])))
   \<and> length (imuBuffer (flow_state
        (replay (example_env None None) [] ''/imu'' [example_imu_message 9]
           (initial_replay_state 4)))) \<le> 50
   \<and> image_phase (example_env None None) example_rig calibrated_state
   \<and> length (imuBuffer calibrated_state) \<le> 50
   \<and> imuBuffer (flow_state
        (replay_message (example_env None None) example_rig ''/imu''
           (imu_message ''/imu'' (example_imu 9)) calibrated_state))
       = replicate 49 (example_imu 7) @ [example_imu 9]
   \<and> imuBuffer (flow_state
        (replay (example_env None None) example_rig ''/imu''
           (map (imu_message ''/imu'') [example_imu 8, example_imu 9]) calibrated_state))
       = replicate 48 (example_imu 7) @ [example_imu 8, example_imu 9]
   \<and> imuBuffer (flow_state
        (replay (example_env None None) example_rig ''/imu'' four_camera_bag
           (initial_replay_state 4)))
       = [example_imu 5]"
proof -
  have a: "length (imuBuffer (initial_replay_state 4)) \<le> 50"
    by (simp add: initial_replay_state_def)
  have b: "msg_topic (example_imu_message 9) = ''/imu''
           \<and> msg_payload (example_imu_message 9) = ImuData (example_imu 9)"
    by (simp add: example_imu_message_def)
  have c: "sorted (map imu_stamp (replicate 50 (example_imu 7) @ [example_imu 9]))"
    by (simp add: example_imu_def sorted_append)
  note C7 = C7_imu_buffer_bounded [where e = "example_env None None" and ns = "[]"
      and imuTopic = "''/imu''" and msgs = "[example_imu_message 9]" and nCams = 4
      and st = "initial_replay_state 4" and m = "example_imu_message 9"
      and imu = "example_imu 9" and buf = "replicate 50 (example_imu 7)"]
  note C7r = C7_imu_buffer_bounded [where e = "example_env None None" and ns = example_rig
      and imuTopic = "''/imu''" and st = calibrated_state and imu = "example_imu 9"
      and samples = "[example_imu 8, example_imu 9]"]
  note cal = calibrated_state_facts
  have d: "imuBuffer (initial_replay_state 4) = []"
    by (simp add: initial_replay_state_def)
  have "trim_buffer (replicate 50 (example_imu 7) @ [example_imu 9])
          = replicate 49 (example_imu 7) @ [example_imu 9]"
    using C7 by simp
  moreover have "imuBuffer (buffer_imu (example_imu_message 9) ''/imu'' (initial_replay_state 4))
       = trim_buffer [example_imu 9]"
    using C7 b d by simp
  moreover have "sorted (map imu_stamp (trim_buffer (replicate 50 (example_imu 7) @ [example_imu 9])))"
    using C7 c by blast
  moreover have "length (imuBuffer (flow_state
        (replay (example_env None None) [] ''/imu'' [example_imu_message 9]
           (initial_replay_state 4)))) \<le> 50"
    using C7 by blast
  moreover have "imuBuffer (flow_state
        (replay_message (example_env None None) example_rig ''/imu''
           (imu_message ''/imu'' (example_imu 9)) calibrated_state))
       = replicate 49 (example_imu 7) @ [example_imu 9]"
  proof -
    obtain st' where "replay_message (example_env None None) example_rig ''/imu''
           (imu_message ''/imu'' (example_imu 9)) calibrated_state = Next st'"
      and "imuBuffer st' = drop (length (imuBuffer calibrated_state @ [example_imu 9]) - 50)
             (imuBuffer calibrated_state @ [example_imu 9])"
      using C7r cal(1) by blast
    then show ?thesis
      by (simp add: cal(4))
  qed
  moreover have "imuBuffer (flow_state
        (replay (example_env None None) example_rig ''/imu''
           (map (imu_message ''/imu'') [example_imu 8, example_imu 9]) calibrated_state))
       = replicate 48 (example_imu 7) @ [example_imu 8, example_imu 9]"
  proof -
    obtain st' where "replay (example_env None None) example_rig ''/imu''
           (map (imu_message ''/imu'') [example_imu 8, example_imu 9]) calibrated_state = Next st'"
      and "imuBuffer st'
             = drop (length (imuBuffer calibrated_state @ [example_imu 8, example_imu 9]) - 50)
                 (imuBuffer calibrated_state @ [example_imu 8, example_imu 9])"
      using C7r cal(1,2,3) by blast
    then show ?thesis
      by (simp add: cal(4))
  qed
  moreover have "imuBuffer (flow_state
        (replay (example_env None None) example_rig ''/imu'' four_camera_bag
           (initial_replay_state 4)))
       = [example_imu 5]"
    by (simp add: replay_eval example_rig_def)
  ultimately show ?thesis
    using a b c cal(1,3) by blast
qed

section \<open>Fewer than four cameras\<close>

lemma sync_subscribers_iff: "sync_subscribers nCams \<longleftrightarrow> N_CAMERAS \<le> nCams"
  by (auto simp: sync_subscribers_def N_CAMERAS_def)

lemma scan_camera_info_out_of_range:
  assumes "msg_topic m \<notin> set names" and "\<exists>i\<in>set indices. \<not> i < length names"
  shows "scan_camera_info indices m names st = Abort OutOfRange st"
  using assms(2)
proof (induction indices)
  case Nil
  then show ?case by simp
next
  case (Cons i rest)
  show ?case
  proof (cases "i < length names")
    case False
    then show ?thesis by simp
  next
    case True
    then have "msg_topic m \<noteq> names ! i"
      using assms(1) nth_mem by metis
    moreover have "\<exists>i\<in>set rest. \<not> i < length names"
      using Cons.prems True by auto
    ultimately show ?thesis
      using True Cons.IH by simp
  qed
qed

lemma scan_images_out_of_range:
  assumes "\<exists>i\<in>set indices. \<not> i < length names"
  shows "\<exists>st'. scan_images indices m names nCams st = Abort OutOfRange st'"
  using assms
proof (induction indices arbitrary: st)
  case Nil
  then show ?case by simp
next
  case (Cons i rest)
  show ?case
  proof (cases "i < length names")
    case False
    then show ?thesis by simp
  next
    case True
    then have "\<exists>i\<in>set rest. \<not> i < length names"
      using Cons.prems by auto
    then have "\<And>st. \<exists>st'. scan_images rest m names nCams st = Abort OutOfRange st'"
      using Cons.IH by blast
    then show ?thesis
      using True by (simp split: option.splits)
  qed
qed

lemma main_few_cameras:
  assumes "parseConfigFile (configFile e) = Inr (ns, imuTopic)"
    and "count_cameras ns < N_CAMERAS"
  shows "main e = (if helpRequested e then (Exit 1, [])
                   else if bagMessages e = None then (Exit 1, [LogError ''Unable to open bag file''])
                   else (OutOfRange, []))"
  using assms by (auto simp: main_def Let_def sync_subscribers_iff split: option.splits)

section \<open>More than four cameras\<close>

lemma parse_line_pair_or_single:
  assumes "parse_line l st = Inr st'" and "pair_or_single (cameraNs st)"
  shows "pair_or_single (cameraNs st')"
  using assms
  by (auto simp: parse_line_def pair_or_single_def split: if_splits option.splits)

lemma parse_lines_pair_or_single:
  "parse_lines ls st = Inr st' \<Longrightarrow> pair_or_single (cameraNs st) \<Longrightarrow> pair_or_single (cameraNs st')"
proof (induction ls arbitrary: st)
  case Nil
  then show ?case by simp
next
  case (Cons l ls)
  then obtain st1 where one: "parse_line l st = Inr st1" and rest: "parse_lines ls st1 = Inr st'"
    by (auto split: sum.splits)
  show ?case
    using Cons.IH [OF rest] parse_line_pair_or_single [OF one Cons.prems(2)] by simp
qed

lemma parsed_pair_or_single:
  assumes "parseConfigFile cfg = Inr (ns, imuTopic)"
  shows "pair_or_single ns"
proof -
  have "accepted (parseConfigFile cfg)"
    using assms by (simp add: accepted_def)
  then obtain content and st :: parse_state
    where "parse_lines (getlines content) init_parse_state = Inr st"
      and "parseConfigFile cfg = Inr (cameraNs st, imuTopicName st)"
    using accepted_summary [of cfg] by blast
  then show ?thesis
    using assms parse_lines_pair_or_single [of "getlines content" init_parse_state st]
    by (simp add: init_parse_state_def pair_or_single_def)
qed

lemma assemble_rig_None:
  assumes "assemble_rig ns mark cams = None" and "pair_or_single ns"
    and "mark \<le> i" and "i < mark + count_cameras ns"
  shows "cams ! i \<noteq> None"
  using assms
proof (induction ns arbitrary: mark)
  case Nil
  then show ?case by (simp add: count_cameras_def)
next
  case (Cons n ns)
  have len: "length n = 1 \<or> length n = 2" and rest: "pair_or_single ns"
    using Cons.prems(2) by (simp_all add: pair_or_single_def)
  have cc: "count_cameras (n # ns) = length n + count_cameras ns"
    by (simp add: count_cameras_concat)
  have next_None: "assemble_rig ns (mark + length n) cams = None"
    using Cons.prems(1) by (auto split: if_splits)
  show ?case
  proof (cases "i < mark + length n")
    case False
    then show ?thesis
      using Cons.IH [OF next_None rest] Cons.prems(4) cc by simp
  next
    case True
    from len show ?thesis
    proof
      assume "length n = 1"
      then have "i = mark"
        using True Cons.prems(3) by simp
      then show ?thesis
        using Cons.prems(1) \<open>length n = 1\<close> by (auto split: if_splits)
    next
      assume two: "length n = 2"
      then have "i = mark \<or> i = mark + 1"
        using True Cons.prems(3) by auto
      then show ?thesis
        using Cons.prems(1) two by (auto split: if_splits)
    qed
  qed
qed

lemma scan_camera_info_no_fifth:
  assumes "no_fifth st" and "\<forall>i\<in>set indices. i < 4"
  shows "case scan_camera_info indices m names st of
           Next st1 \<Rightarrow> no_fifth st1
         | Break st1 \<Rightarrow> False
         | Abort out st1 \<Rightarrow> out = OutOfRange"
  using assms(2)
proof (induction indices)
  case Nil
  then show ?case using assms(1) by simp
next
  case (Cons i rest)
  then have i: "i < 4" and ih: "case scan_camera_info rest m names st of
           Next st1 \<Rightarrow> no_fifth st1 | Break st1 \<Rightarrow> False | Abort out st1 \<Rightarrow> out = OutOfRange"
    by simp_all
  have upd: "no_fifth (st\<lparr>cameras := (cameras st)[i := Some c], init := (init st)[i := True]\<rparr>)" for c
    using assms(1) i by (simp add: no_fifth_def)
  show ?case
    using ih upd assms(1) by (simp split: option.splits)
qed

lemma scan_images_no_fifth:
  assumes "no_fifth st"
  shows "case scan_images indices m names nCams st of
           Next st1 \<Rightarrow> no_fifth st1
         | Break st1 \<Rightarrow> False
         | Abort out st1 \<Rightarrow> out = OutOfRange"
  using assms
proof (induction indices arbitrary: st)
  case Nil
  then show ?case by simp
next
  case (Cons i rest)
  have eff: "no_fifth (st\<lparr>effects := xs\<rparr>)" for xs
    using Cons.prems by (simp add: no_fifth_def)
  show ?case
    using Cons.IH [OF eff] Cons.IH [OF Cons.prems] by (simp split: option.splits)
qed

lemma replay_message_no_fifth:
  assumes "no_fifth st" and "pair_or_single ns" and "4 < count_cameras ns"
  shows "case replay_message e ns imuTopic m st of
           Next st1 \<Rightarrow> no_fifth st1
         | Break st1 \<Rightarrow> no_fifth st1
         | Abort out st1 \<Rightarrow> out \<noteq> Exit 0"
proof (cases "count_init st < N_CAMERAS")
  case True
  have ind: "\<forall>i\<in>set [0 ..< N_CAMERAS]. i < 4"
    by (simp add: N_CAMERAS_def)
  note scan = scan_camera_info_no_fifth [OF assms(1) ind, of m "camInfoTopicNames ns"]
  show ?thesis
  proof (cases "scan_camera_info [0 ..< N_CAMERAS] m (camInfoTopicNames ns) st")
    case (Next st1)
    then have nf: "no_fifth st1"
      using scan by simp
    have "assemble_rig ns 0 (cameras st1) \<noteq> None"
    proof
      assume "assemble_rig ns 0 (cameras st1) = None"
      then have "cameras st1 ! 4 \<noteq> None"
        using assemble_rig_None [of ns 0 "cameras st1" 4] assms(2,3) by simp
      then show False
        using nf by (simp add: no_fifth_def)
    qed
    then obtain failure where f: "assemble_rig ns 0 (cameras st1) = Some failure"
      by blast
    have "failure \<noteq> Exit 0"
    proof -
      have "assemble_rig ns' mark cams = Some (Exit 0) \<Longrightarrow> False" for ns' mark cams
        by (induction ns' arbitrary: mark) (auto split: if_splits)
      then show ?thesis
        using f by blast
    qed
    then show ?thesis
      using True Next nf f by (simp add: replay_message_def)
  next
    case (Break st1)
    then show ?thesis
      using scan by simp
  next
    case (Abort out st1)
    then show ?thesis
      using scan True by (simp add: replay_message_def)
  qed
next
  case False
  note scan = scan_images_no_fifth [OF assms(1), of "[0 ..< N_CAMERAS]" m
      "camImageTopicNames ns" "count_cameras ns"]
  have buf: "no_fifth st1 \<Longrightarrow> no_fifth (buffer_imu m imuTopic st1)" for st1
    by (simp add: buffer_imu_def no_fifth_def split: option.splits)
  show ?thesis
    using False scan buf assms(1)
    by (auto simp: replay_message_def split: flow.splits)
qed

lemma replay_no_fifth:
  assumes "pair_or_single ns" and "4 < count_cameras ns"
  shows "no_fifth st \<Longrightarrow>
         (case replay e ns imuTopic msgs st of
            Next st1 \<Rightarrow> no_fifth st1
          | Break st1 \<Rightarrow> no_fifth st1
          | Abort out st1 \<Rightarrow> out \<noteq> Exit 0)"
proof (induction msgs arbitrary: st)
  case Nil
  then show ?case by simp
next
  case (Cons m msgs)
  let ?st0 = "st\<lparr>okCalls := okCalls st + 1\<rparr>"
  have st0: "no_fifth ?st0"
    using Cons.prems by (simp add: no_fifth_def)
  note one = replay_message_no_fifth [OF st0 assms, of e imuTopic m]
  show ?case
  proof (cases "rosOk e (okCalls st)")
    case False
    then show ?thesis
      using st0 by (simp add: Let_def)
  next
    case True
    show ?thesis
    proof (cases "replay_message e ns imuTopic m ?st0")
      case (Next st1)
      then show ?thesis
        using one Cons.IH [of st1] True by (simp add: Let_def)
    next
      case (Break st1)
      then show ?thesis
        using one True by (simp add: Let_def)
    next
      case (Abort out st1)
      then show ?thesis
        using one True by (simp add: Let_def)
    qed
  qed
qed

lemma main_many_cameras:
  assumes "parseConfigFile (configFile e) = Inr (ns, imuTopic)"
    and "N_CAMERAS < count_cameras ns"
  shows "fst (main e) \<noteq> Exit 0"
proof -
  have ps: "pair_or_single ns"
    by (rule parsed_pair_or_single [OF assms(1)])
  have n: "4 < count_cameras ns"
    using assms(2) by (simp add: N_CAMERAS_def)
  have start: "no_fifth (initial_replay_state (count_cameras ns))"
    using n by (simp add: no_fifth_def initial_replay_state_def)
  have fin: "fst (finish e ns st) \<noteq> Exit 0" if "no_fifth st" for st
    using that by (simp add: finish_def no_fifth_def)
  have "fst (case replay e ns imuTopic view (initial_replay_state (count_cameras ns)) of
               Abort out st \<Rightarrow> (out, effects st)
             | Next st \<Rightarrow> finish e ns st
             | Break st \<Rightarrow> finish e ns st) \<noteq> Exit 0" for view
    using replay_no_fifth [OF ps n start, of e imuTopic view] fin
    by (auto split: flow.splits)
  then show ?thesis
    using assms(1) by (auto simp: main_def Let_def split: option.splits)
qed

lemma example_config_parsed:
  "parseConfigFile (Some example_config) = Inr ([[''/cam0'', ''/cam1''], [''/cam2'']], ''/imu'')"
  by (simp add: parser_eval example_config_lines)

lemma two_pairs_parsed:
  "parseConfigFile (Some two_pairs_config)
     = Inr ([[''/cam0'', ''/cam1''], [''/cam2'', ''/cam3'']], ''/imu'')"
  by (simp add: parser_eval two_pairs_config_lines)

lemma five_cameras_lines:
  "getlines five_cameras_config
     = [''stereo /cam0 /cam1'', ''stereo /cam2 /cam3'', ''mono /cam4'', ''imu /imu'']"
  by (simp add: five_cameras_config_def newline_def)

lemma five_cameras_parsed:
  "parseConfigFile (Some five_cameras_config)
     = Inr ([[''/cam0'', ''/cam1''], [''/cam2'', ''/cam3''], [''/cam4'']], ''/imu'')"
  by (simp add: parser_eval five_cameras_lines)

lemma four_cameras_complete:
  "main (example_env (Some two_pairs_config) (Some four_camera_bag))
     = (Exit 0,
        [RegisterCallback, NewMessage 0 example_image, Publish 0 (Some example_image),
         ScRun, WriteCalibration, SetCameraInfo ''/cam0/camera_info'',
         SetCameraInfo ''/cam1/camera_info'', SetCameraInfo ''/cam2/camera_info'',
         SetCameraInfo ''/cam3/camera_info'', WritePoses])"
  by (simp add: two_pairs_parsed replay_eval)

text \<open>
  C8. The node completes only for a configuration of exactly four cameras: when \<^verbatim>\<open>main\<close>
  returns 0 the accepted configuration has four. With fewer than four the run cannot
  complete. \<^verbatim>\<open>main\<close> never returns 0 and writes nothing: unless it stops before (at
  \<^verbatim>\<open>--help\<close> or at a bag that does not open), the constructor of the 4-way synchronizer
  reads \<^verbatim>\<open>imageSubs.at(i)\<close> beyond the \<open>nCams\<close> subscribers and \<^verbatim>\<open>std::out_of_range\<close> ends
  the process. The two lists of topic names have \<open>nCams\<close> entries, and the loops of the
  replay that read them at indices 0 to 3 leave their range as well: the camera-info loop
  for every message of another topic, the image loop, which has no \<^verbatim>\<open>break\<close>, for every
  message.
\<close>

theorem C8_needs_four_cameras:
  assumes "parseConfigFile (configFile e) = Inr (ns, imuTopic)"
  shows "(fst (main e) = Exit 0 \<longrightarrow> count_cameras ns = N_CAMERAS)
         \<and> (count_cameras ns < N_CAMERAS \<longrightarrow>
              fst (main e) \<noteq> Exit 0
              \<and> WriteCalibration \<notin> set (snd (main e)) \<and> WritePoses \<notin> set (snd (main e))
              \<and> (\<not> helpRequested e \<and> bagMessages e \<noteq> None \<longrightarrow> main e = (OutOfRange, []))
              \<and> length (camInfoTopicNames ns) < N_CAMERAS
              \<and> length (camImageTopicNames ns) < N_CAMERAS
              \<and> (\<forall>m st. msg_topic m \<notin> set (camInfoTopicNames ns) \<longrightarrow>
                    scan_camera_info [0 ..< N_CAMERAS] m (camInfoTopicNames ns) st
                      = Abort OutOfRange st)
              \<and> (\<forall>m st. \<exists>st'.
                    scan_images [0 ..< N_CAMERAS] m (camImageTopicNames ns) (count_cameras ns) st
                      = Abort OutOfRange st'))"
proof -
  have four: "count_cameras ns = N_CAMERAS" if finished: "fst (main e) = Exit 0"
  proof (rule ccontr)
    assume "count_cameras ns \<noteq> N_CAMERAS"
    then consider (few) "count_cameras ns < N_CAMERAS" | (many) "N_CAMERAS < count_cameras ns"
      by linarith
    then show False
    proof cases
      case few
      then show ?thesis
        using main_few_cameras [OF assms few] finished by (simp split: if_splits)
    next
      case many
      then show ?thesis
        using main_many_cameras [OF assms many] finished by simp
    qed
  qed
  have less: "fst (main e) \<noteq> Exit 0
              \<and> WriteCalibration \<notin> set (snd (main e)) \<and> WritePoses \<notin> set (snd (main e))
              \<and> (\<not> helpRequested e \<and> bagMessages e \<noteq> None \<longrightarrow> main e = (OutOfRange, []))
              \<and> length (camInfoTopicNames ns) < N_CAMERAS
              \<and> length (camImageTopicNames ns) < N_CAMERAS
              \<and> (\<forall>m st. msg_topic m \<notin> set (camInfoTopicNames ns) \<longrightarrow>
                    scan_camera_info [0 ..< N_CAMERAS] m (camInfoTopicNames ns) st
                      = Abort OutOfRange st)
              \<and> (\<forall>m st. \<exists>st'.
                    scan_images [0 ..< N_CAMERAS] m (camImageTopicNames ns) (count_cameras ns) st
                      = Abort OutOfRange st')"
    if few: "count_cameras ns < N_CAMERAS"
  proof -
    have range: "\<exists>i\<in>set [0 ..< N_CAMERAS]. \<not> i < count_cameras ns"
      using few by (auto simp: N_CAMERAS_def)
    have info: "scan_camera_info [0 ..< N_CAMERAS] m (camInfoTopicNames ns) st = Abort OutOfRange st"
      if other: "msg_topic m \<notin> set (camInfoTopicNames ns)" for m st
      using other range
      by (intro scan_camera_info_out_of_range) (simp_all add: length_camInfoTopicNames)
    have img: "\<exists>st'. scan_images [0 ..< N_CAMERAS] m (camImageTopicNames ns) (count_cameras ns) st
                   = Abort OutOfRange st'" for m st
      using range by (intro scan_images_out_of_range) (simp add: length_camImageTopicNames)
    have "fst (main e) \<noteq> Exit 0" "WriteCalibration \<notin> set (snd (main e))"
      "WritePoses \<notin> set (snd (main e))"
      "\<not> helpRequested e \<and> bagMessages e \<noteq> None \<longrightarrow> main e = (OutOfRange, [])"
      using main_few_cameras [OF assms few] by (simp_all split: if_splits)
    then show ?thesis
      using info img few by (simp add: length_camInfoTopicNames length_camImageTopicNames)
  qed
  show ?thesis
    using four less by blast
qed

theorem C8_needs_four_cameras_witness:
  "parseConfigFile (configFile (example_env (Some example_config) (Some [])))
     = Inr ([[''/cam0'', ''/cam1''], [''/cam2'']], ''/imu'')
   \<and> count_cameras [[''/cam0'', ''/cam1''], [''/cam2'']] < N_CAMERAS
   \<and> main (example_env (Some example_config) (Some [])) = (OutOfRange, [])
   \<and> parseConfigFile (configFile (example_env (Some two_pairs_config) (Some four_camera_bag)))
       = Inr ([[''/cam0'', ''/cam1''], [''/cam2'', ''/cam3'']], ''/imu'')
   \<and> fst (main (example_env (Some two_pairs_config) (Some four_camera_bag))) = Exit 0
   \<and> count_cameras [[''/cam0'', ''/cam1''], [''/cam2'', ''/cam3'']] = N_CAMERAS
   \<and> parseConfigFile (configFile (example_env (Some five_cameras_config) (Some four_camera_bag)))
       = Inr ([[''/cam0'', ''/cam1''], [''/cam2'', ''/cam3''], [''/cam4'']], ''/imu'')
   \<and> count_cameras [[''/cam0'', ''/cam1''], [''/cam2'', ''/cam3''], [''/cam4'']] = 5
   \<and> fst (main (example_env (Some five_cameras_config) (Some four_camera_bag))) \<noteq> Exit 0"
proof -
  have v: "parseConfigFile (configFile (example_env (Some five_cameras_config) (Some four_camera_bag)))
       = Inr ([[''/cam0'', ''/cam1''], [''/cam2'', ''/cam3''], [''/cam4'']], ''/imu'')"
    by (simp add: example_env_def five_cameras_parsed)
  have c5: "count_cameras [[''/cam0'', ''/cam1''], [''/cam2'', ''/cam3''], [''/cam4'']] = 5"
    by (simp add: count_cameras_def)
  have m5: "fst (main (example_env (Some five_cameras_config) (Some four_camera_bag))) \<noteq> Exit 0"
    using C8_needs_four_cameras [OF v] c5 by (auto simp: N_CAMERAS_def)
  have p: "parseConfigFile (configFile (example_env (Some example_config) (Some [])))
     = Inr ([[''/cam0'', ''/cam1''], [''/cam2'']], ''/imu'')"
    by (simp add: example_env_def example_config_parsed)
  have n: "count_cameras [[''/cam0'', ''/cam1''], [''/cam2'']] < N_CAMERAS"
    by (simp add: count_cameras_def N_CAMERAS_def)
  have q: "parseConfigFile (configFile (example_env (Some two_pairs_config) (Some four_camera_bag)))
       = Inr ([[''/cam0'', ''/cam1''], [''/cam2'', ''/cam3'']], ''/imu'')"
    by (simp add: example_env_def two_pairs_parsed)
  have z: "fst (main (example_env (Some two_pairs_config) (Some four_camera_bag))) = Exit 0"
    by (simp add: four_cameras_complete)
  have "main (example_env (Some example_config) (Some [])) = (OutOfRange, [])"
    using C8_needs_four_cameras [OF p] n by (simp add: example_env_def)
  moreover have "count_cameras [[''/cam0'', ''/cam1''], [''/cam2'', ''/cam3'']] = N_CAMERAS"
    using C8_needs_four_cameras [OF q] z by blast
  ultimately show ?thesis
    using p n q z v c5 m5 by blast
qed

section \<open>Letter case of the sensor type\<close>

lemma iequals_map: "iequals a b \<longleftrightarrow> map toupper a = map toupper b"
  by (induction a b rule: iequals.induct) auto

lemma capital_toupper:
  "(b, a) \<in> set upper_table \<Longrightarrow> toupper a = a \<and> toupper b = a"
  unfolding upper_table_def
  apply simp
  apply (elim disjE conjE)
  apply (simp_all add: toupper_def upper_table_def)
  done

lemma case_variant_iequals: "case_variant kw k \<Longrightarrow> iequals kw k"
  unfolding case_variant_def
proof (induction kw k rule: list_all2_induct)
  case Nil
  then show ?case by simp
next
  case (Cons a kw b k)
  then have "toupper a = toupper b"
    using capital_toupper [of b a] by auto
  then show ?case
    using Cons by simp
qed

lemma parse_line_same_decision:
  assumes "same_flags st st'"
  shows "same_decision (parse_line l st) (parse_line l st')"
proof (cases "l = []")
  case True
  then show ?thesis
    using assms by (simp add: parse_line_def same_decision_def)
next
  case False
  then obtain token s1 p where tok: "parseTokenFromString l = Some (token, s1, p)"
    using parseToken_nonempty by blast
  show ?thesis
    using assms False tok
    by (simp add: parse_line_def same_decision_def same_flags_def split: option.splits)
qed

lemma parse_lines_same_decision:
  assumes "same_flags st st'"
  shows "same_decision (parse_lines ls st) (parse_lines ls st')"
  using assms
proof (induction ls arbitrary: st st')
  case Nil
  then show ?case by (simp add: same_decision_def)
next
  case (Cons l ls)
  have one: "same_decision (parse_line l st) (parse_line l st')"
    by (rule parse_line_same_decision [OF Cons.prems])
  show ?case
  proof (cases "parse_line l st")
    case (Inl e)
    then show ?thesis
      using one by (auto simp: same_decision_def split: sum.splits)
  next
    case (Inr st1)
    then obtain st1' where r: "parse_line l st' = Inr st1'" and f: "same_flags st1 st1'"
      using one by (auto simp: same_decision_def split: sum.splits)
    show ?thesis
      using Cons.IH [OF f] Inr r by simp
  qed
qed

lemma parse_lines_append:
  "parse_lines (xs @ ys) st =
     (case parse_lines xs st of Inl e \<Rightarrow> Inl e | Inr st1 \<Rightarrow> parse_lines ys st1)"
  by (induction xs arbitrary: st) (auto split: sum.splits)

lemma keyword_facts:
  assumes "iequals kw k" and "k = ''stereo'' \<or> k = ''mono'' \<or> k = ''imu''"
  shows "CHR '' '' \<notin> set kw" and "CHR '' '' \<notin> set k" and "length kw < npos"
    and "length k < npos" and "kw \<noteq> []" and "k \<noteq> []"
    and "\<And>x. iequals kw x = iequals k x"
    and "iequals k ''stereo'' \<or> iequals k ''mono'' \<or> iequals k ''imu''"
proof -
  show k: "CHR '' '' \<notin> set k"
    using assms(2) by auto
  then show "CHR '' '' \<notin> set kw"
    using iequals_space [OF assms(1)] by simp
  show lk: "length k < npos"
    using assms(2) keyword_lengths by auto
  then show "length kw < npos"
    using iequals_length [OF assms(1)] by simp
  show "k \<noteq> []"
    using assms(2) by auto
  then show "kw \<noteq> []"
    using iequals_length [OF assms(1)] by auto
  show "iequals kw x = iequals k x" for x
    using assms(1) by (simp add: iequals_map)
  show "iequals k ''stereo'' \<or> iequals k ''mono'' \<or> iequals k ''imu''"
    using assms(2) by (elim disjE) (simp_all add: iequals_map)
qed

lemma parse_line_variant_space:
  assumes "iequals kw k" and "k = ''stereo'' \<or> k = ''mono'' \<or> k = ''imu''"
  shows "parse_line (kw @ CHR '' '' # r) st = parse_line (k @ CHR '' '' # r) st"
proof -
  note kf = keyword_facts [OF assms]
  have "parseTokenFromString (kw @ CHR '' '' # r) = Some (kw, r, length kw)"
    by (rule parseToken_space [OF kf(1) kf(3)])
  moreover have "parseTokenFromString (k @ CHR '' '' # r) = Some (k, r, length k)"
    by (rule parseToken_space [OF kf(2) kf(4)])
  ultimately show ?thesis
    using kf(8) by (auto simp: parse_line_def kf(7))
qed

lemma parse_line_variant_bare:
  assumes "iequals kw k" and "k = ''stereo'' \<or> k = ''mono'' \<or> k = ''imu''"
    and "same_flags st st'"
  shows "same_decision (parse_line kw st) (parse_line k st')"
proof -
  note kf = keyword_facts [OF assms(1,2)]
  have "parseTokenFromString kw = Some (kw, kw, npos)"
    using kf by (intro parseToken_no_space) simp_all
  moreover have "parseTokenFromString k = Some (k, k, npos)"
    using kf by (intro parseToken_no_space) simp_all
  ultimately show ?thesis
    using kf(5,6,8) assms(3)
    by (auto simp: parse_line_def kf(7) same_decision_def same_flags_def)
qed


lemma parse_lines_replace:
  assumes "\<And>st st'. same_flags st st' \<Longrightarrow> same_decision (parse_line l st) (parse_line l' st')"
  shows "same_decision (parse_lines (before @ l # after) st0)
           (parse_lines (before @ l' # after) st0)"
proof (cases "parse_lines before st0")
  case (Inl e)
  then show ?thesis
    by (simp add: parse_lines_append same_decision_def)
next
  case (Inr st1)
  have one: "same_decision (parse_line l st1) (parse_line l' st1)"
    by (rule assms) (simp add: same_flags_def)
  show ?thesis
  proof (cases "parse_line l st1")
    case (Inl e)
    then show ?thesis
      using one Inr by (auto simp: parse_lines_append same_decision_def split: sum.splits)
  next
    case line: (Inr st2)
    then obtain st2' where r: "parse_line l' st1 = Inr st2'" and f: "same_flags st2 st2'"
      using one by (auto simp: same_decision_def split: sum.splits)
    show ?thesis
      using parse_lines_same_decision [OF f, of after] Inr line r
      by (simp add: parse_lines_append)
  qed
qed

lemma same_decision_accepted:
  assumes "same_decision (parse_lines (getlines content) init_parse_state)
             (parse_lines (getlines content') init_parse_state)"
  shows "accepted (parseConfigFile (Some content)) = accepted (parseConfigFile (Some content'))"
  using assms
  by (auto simp: parseConfigFile_lines accepted_def same_decision_def same_flags_def
      split: sum.splits)

text \<open>
  The sensor type is matched without regard to letter case. When the first token of a line
  is \<^verbatim>\<open>stereo\<close>, \<^verbatim>\<open>mono\<close> or \<^verbatim>\<open>imu\<close> with any of its letters in upper case,
  \<^verbatim>\<open>boost::iequals\<close> matches it, and \<^verbatim>\<open>parseConfigFile\<close> decides on the file as it does on
  the file with the lowercase word in that place; when topics follow the word, the whole
  result is the same.
\<close>

lemma keyword_case_variant:
  assumes "case_variant kw k" and "k = ''stereo'' \<or> k = ''mono'' \<or> k = ''imu''"
    and "rest = [] \<or> hd rest = CHR '' ''"
    and "getlines content = before @ (kw @ rest) # after"
    and "getlines content' = before @ (k @ rest) # after"
  shows "iequals kw k
         \<and> accepted (parseConfigFile (Some content)) = accepted (parseConfigFile (Some content'))
         \<and> (rest \<noteq> [] \<longrightarrow> parseConfigFile (Some content) = parseConfigFile (Some content'))"
proof -
  have ie: "iequals kw k"
    by (rule case_variant_iequals [OF assms(1)])
  have step: "same_decision (parse_line (kw @ rest) st) (parse_line (k @ rest) st')"
    if f: "same_flags st st'" for st st'
  proof (cases rest)
    case Nil
    then show ?thesis
      using parse_line_variant_bare [OF ie assms(2) f] by simp
  next
    case (Cons c r)
    then have "rest = CHR '' '' # r"
      using assms(3) by simp
    then show ?thesis
      using parse_line_variant_space [OF ie assms(2), of r st]
        parse_line_same_decision [OF f, of "k @ rest"] by simp
  qed
  have "same_decision (parse_lines (getlines content) init_parse_state)
          (parse_lines (getlines content') init_parse_state)"
    unfolding assms(4,5) by (rule parse_lines_replace) (rule step)
  then have acc: "accepted (parseConfigFile (Some content)) = accepted (parseConfigFile (Some content'))"
    by (rule same_decision_accepted)
  have "parseConfigFile (Some content) = parseConfigFile (Some content')" if ne: "rest \<noteq> []"
  proof -
    obtain r where "rest = CHR '' '' # r"
      using ne assms(3) by (cases rest) auto
    then have "parse_line (kw @ rest) st = parse_line (k @ rest) st" for st
      using parse_line_variant_space [OF ie assms(2), of r st] by simp
    then have "parse_lines (getlines content) init_parse_state
                 = parse_lines (getlines content') init_parse_state"
      unfolding assms(4,5) by (simp add: parse_lines_append split: sum.splits)
    then show ?thesis
      by (simp add: parseConfigFile_lines)
  qed
  then show ?thesis
    using ie acc by blast
qed



section \<open>The order of the cameras\<close>

lemma parse_lines_each:
  assumes "parse_lines ls st = Inr st'" and "l \<in> set ls"
  shows "\<exists>s1 s2. parse_line l s1 = Inr s2"
  using assms
proof (induction ls arbitrary: st)
  case Nil
  then show ?case by simp
next
  case (Cons x xs)
  then obtain st1 where one: "parse_line x st = Inr st1" and rest: "parse_lines xs st1 = Inr st'"
    by (auto split: sum.splits)
  show ?case
  proof (cases "l = x")
    case True
    then show ?thesis
      using one by blast
  next
    case False
    then show ?thesis
      using Cons.IH [OF rest] Cons.prems(2) by simp
  qed
qed

lemma line_cameras_length:
  assumes "parse_line l s1 = Inr s2"
  shows "length (line_cameras l) = (if is_stereo_line l \<or> is_mono_line l then 1 else 0)"
proof -
  have cams: "cameraNs s2 = cameraNs s1 @ line_cameras l"
    by (rule line_cameras_step [OF assms])
  consider (empty) "l = []" | (stereo) "is_stereo_line l" | (mono) "is_mono_line l"
    | (imu) "is_imu_line l" | (unknown) "is_unknown_line l"
    using line_kind_cases by blast
  then show ?thesis
  proof cases
    case empty
    then have "s2 = s1"
      using assms by (simp add: parse_line_empty)
    then have "line_cameras l = []"
      using cams by simp
    then show ?thesis
      using line_kinds_exclusive(5) [OF empty] by simp
  next
    case stereo
    then obtain L R where "s2 = s1\<lparr>cameraNs := cameraNs s1 @ [[L, R]], hasStereo := True\<rparr>"
      using parse_line_stereo [OF stereo, of s1] assms by auto
    then have "line_cameras l = [[L, R]]"
      using cams by simp
    then show ?thesis
      by (simp add: stereo)
  next
    case mono
    then obtain T where "s2 = s1\<lparr>cameraNs := cameraNs s1 @ [[T]]\<rparr>"
      using parse_line_mono [OF mono, of s1] assms by auto
    then have "line_cameras l = [[T]]"
      using cams by simp
    then show ?thesis
      by (simp add: mono)
  next
    case imu
    then obtain T where "s2 = s1\<lparr>imuTopicName := T, hasIMU := True\<rparr>"
      using parse_line_imu [OF imu, of s1] assms by auto
    then have "line_cameras l = []"
      using cams by simp
    then show ?thesis
      using line_kinds_exclusive(3) [OF imu] by simp
  next
    case unknown
    then show ?thesis
      using parse_line_unknown [OF unknown, of s1] assms by auto
  qed
qed

lemma topic_names_concat:
  "camInfoTopicNames ns = map (\<lambda>n. n @ ''/camera_info'') (concat ns)"
  "camImageTopicNames ns = map (\<lambda>n. n @ ''/image_raw'') (concat ns)"
  by (simp_all add: camInfoTopicNames_def camImageTopicNames_def map_concat)

text \<open>
  C10. The cameras come out in the order of the file. For an accepted file \<^verbatim>\<open>cameraNs\<close>
  is the concatenation, line by line in file order, of what each line contributes: one
  entry for a \<^verbatim>\<open>stereo\<close> or \<^verbatim>\<open>mono\<close> line and nothing for any other line. A line
  \<^verbatim>\<open>stereo L R\<close> contributes the entry with \<open>L\<close> then \<open>R\<close>, a line \<^verbatim>\<open>mono T\<close> the entry
  with \<open>T\<close>. The lists of camera-info and image topics that \<^verbatim>\<open>main\<close> derives name the
  cameras of the flattened \<^verbatim>\<open>cameraNs\<close> in that same order.
\<close>

theorem C10_declaration_order:
  "(parseConfigFile (Some content) = Inr (ns, imuTopic) \<longrightarrow>
      ns = concat (map line_cameras (getlines content))
      \<and> list_all (\<lambda>l. length (line_cameras l) = (if is_stereo_line l \<or> is_mono_line l then 1 else 0))
           (getlines content))
   \<and> camInfoTopicNames ns = map (\<lambda>n. n @ ''/camera_info'') (concat ns)
   \<and> camImageTopicNames ns = map (\<lambda>n. n @ ''/image_raw'') (concat ns)
   \<and> (iequals kw ''stereo'' \<and> CHR '' '' \<notin> set L \<and> CHR '' '' \<notin> set R \<and> R \<noteq> []
        \<and> length (kw @ CHR '' '' # L @ CHR '' '' # R) < npos \<longrightarrow>
      line_cameras (kw @ CHR '' '' # L @ CHR '' '' # R) = [[L, R]])
   \<and> (iequals kw ''mono'' \<and> CHR '' '' \<notin> set T \<and> T \<noteq> []
        \<and> length (kw @ CHR '' '' # T) < npos \<longrightarrow>
      line_cameras (kw @ CHR '' '' # T) = [[T]])"
proof (intro conjI impI)
  assume r: "parseConfigFile (Some content) = Inr (ns, imuTopic)"
  then obtain st :: parse_state
    where st: "parse_lines (getlines content) init_parse_state = Inr st"
      and ns: "cameraNs st = ns"
    by (auto simp: parseConfigFile_lines split: sum.splits if_splits)
  show "ns = concat (map line_cameras (getlines content))"
    using parse_lines_cameras [OF st] ns by (simp add: init_parse_state_def)
  show "list_all (\<lambda>l. length (line_cameras l) = (if is_stereo_line l \<or> is_mono_line l then 1 else 0))
           (getlines content)"
    unfolding list_all_iff
  proof
    fix l
    assume "l \<in> set (getlines content)"
    then obtain s1 s2 where "parse_line l s1 = Inr s2"
      using parse_lines_each [OF st] by blast
    then show "length (line_cameras l) = (if is_stereo_line l \<or> is_mono_line l then 1 else 0)"
      by (rule line_cameras_length)
  qed
next
  show "camInfoTopicNames ns = map (\<lambda>n. n @ ''/camera_info'') (concat ns)"
    by (rule topic_names_concat)
next
  show "camImageTopicNames ns = map (\<lambda>n. n @ ''/image_raw'') (concat ns)"
    by (rule topic_names_concat)
next
  assume "iequals kw ''stereo'' \<and> CHR '' '' \<notin> set L \<and> CHR '' '' \<notin> set R \<and> R \<noteq> []
        \<and> length (kw @ CHR '' '' # L @ CHR '' '' # R) < npos"
  then show "line_cameras (kw @ CHR '' '' # L @ CHR '' '' # R) = [[L, R]]"
    using parse_line_stereo_form [of kw L R init_parse_state]
    by (simp add: line_cameras_def init_parse_state_def)
next
  assume "iequals kw ''mono'' \<and> CHR '' '' \<notin> set T \<and> T \<noteq> []
        \<and> length (kw @ CHR '' '' # T) < npos"
  then show "line_cameras (kw @ CHR '' '' # T) = [[T]]"
    using parse_line_mono_form [of kw T init_parse_state]
    by (simp add: line_cameras_def init_parse_state_def)
qed

theorem C10_declaration_order_witness:
  "parseConfigFile (Some example_config) = Inr ([[''/cam0'', ''/cam1''], [''/cam2'']], ''/imu'')
   \<and> concat (map line_cameras (getlines example_config)) = [[''/cam0'', ''/cam1''], [''/cam2'']]
   \<and> camInfoTopicNames [[''/cam0'', ''/cam1''], [''/cam2'']]
       = [''/cam0/camera_info'', ''/cam1/camera_info'', ''/cam2/camera_info'']
   \<and> camImageTopicNames [[''/cam0'', ''/cam1''], [''/cam2'']]
       = [''/cam0/image_raw'', ''/cam1/image_raw'', ''/cam2/image_raw'']
   \<and> iequals ''stereo'' ''stereo'' \<and> CHR '' '' \<notin> set ''/cam0'' \<and> CHR '' '' \<notin> set ''/cam1''
   \<and> length (''stereo'' @ CHR '' '' # ''/cam0'' @ CHR '' '' # ''/cam1'') < npos
   \<and> line_cameras (''stereo'' @ CHR '' '' # ''/cam0'' @ CHR '' '' # ''/cam1'')
       = [[''/cam0'', ''/cam1'']]
   \<and> iequals ''mono'' ''mono'' \<and> CHR '' '' \<notin> set ''/cam2''
   \<and> length (''mono'' @ CHR '' '' # ''/cam2'') < npos
   \<and> line_cameras (''mono'' @ CHR '' '' # ''/cam2'') = [[''/cam2'']]"
proof -
  note C10s = C10_declaration_order [where content = example_config
      and ns = "[[''/cam0'', ''/cam1''], [''/cam2'']]" and imuTopic = "''/imu''"
      and kw = "''stereo''" and L = "''/cam0''" and R = "''/cam1''" and T = "''/cam2''"]
  note C10m = C10_declaration_order [where content = example_config
      and ns = "[[''/cam0'', ''/cam1''], [''/cam2'']]" and imuTopic = "''/imu''"
      and kw = "''mono''" and L = "''/cam0''" and R = "''/cam1''" and T = "''/cam2''"]
  have ie: "iequals ''stereo'' ''stereo''" "iequals ''mono'' ''mono''"
    by (simp_all add: iequals_map)
  have sp: "CHR '' '' \<notin> set ''/cam0''" "CHR '' '' \<notin> set ''/cam1''" "CHR '' '' \<notin> set ''/cam2''"
    by simp_all
  have len: "length (''stereo'' @ CHR '' '' # ''/cam0'' @ CHR '' '' # ''/cam1'') < npos"
    "length (''mono'' @ CHR '' '' # ''/cam2'') < npos"
    by (simp_all add: npos_def)
  have "line_cameras (''stereo'' @ CHR '' '' # ''/cam0'' @ CHR '' '' # ''/cam1'')
       = [[''/cam0'', ''/cam1'']]"
    using C10s ie sp len by blast
  moreover have "line_cameras (''mono'' @ CHR '' '' # ''/cam2'') = [[''/cam2'']]"
    using C10m ie sp len by blast
  moreover have "concat (map line_cameras (getlines example_config))
                   = [[''/cam0'', ''/cam1''], [''/cam2'']]"
    using C10s example_config_parsed by simp
  moreover have "camInfoTopicNames [[''/cam0'', ''/cam1''], [''/cam2'']]
       = [''/cam0/camera_info'', ''/cam1/camera_info'', ''/cam2/camera_info'']"
    using C10s by simp
  moreover have "camImageTopicNames [[''/cam0'', ''/cam1''], [''/cam2'']]
       = [''/cam0/image_raw'', ''/cam1/image_raw'', ''/cam2/image_raw'']"
    using C10s by simp
  ultimately show ?thesis
    using example_config_parsed ie sp len by simp
qed

end
